theory Spec2Isabelle
  imports Complex_Main "HOL-Library.List_Lexorder" "HOL-Library.Product_Lexorder"
begin

section \<open>Python values\<close>

text \<open>
  A Python \<open>str\<close> is a sequence of Unicode code points; the scripts slice, search and
  compare the Arabic texts code point by code point, so a text is a list of code points.
  ASCII literals of the scripts are written out as their code points.
\<close>

type_synonym ustring = "nat list"

text \<open>The exceptions the modelled code can raise.\<close>

datatype error = ValueError | TypeError | OverflowError | AttributeError

text \<open>
  A float read by \<open>json.load\<close>: every finite double is a rational; the parser also accepts
  \<open>Infinity\<close>, \<open>-Infinity\<close> and \<open>NaN\<close>.
\<close>

datatype pyfloat = Finite rat | PosInf | NegInf | NaN

text \<open>A JSON value as \<open>json.load\<close> returns it.\<close>

datatype jval =
    JNull
  | JBool bool
  | JInt int
  | JFloat pyfloat
  | JStr ustring
  | JList "jval list"
  | JObj "(ustring \<times> jval) list"

text \<open>Truth value of an object, as \<open>if x\<close> tests it.\<close>

fun truthy :: "jval \<Rightarrow> bool" where
  "truthy JNull = False"
| "truthy (JBool b) = b"
| "truthy (JInt n) = (n \<noteq> 0)"
| "truthy (JFloat f) = (f \<noteq> Finite 0)"
| "truthy (JStr s) = (s \<noteq> [])"
| "truthy (JList xs) = (xs \<noteq> [])"
| "truthy (JObj kvs) = (kvs \<noteq> [])"

text \<open>
  \<open>str.isspace\<close>: the code points that \<open>str.split()\<close> and \<open>str.strip()\<close> treat as
  whitespace.
\<close>

definition is_space :: "nat \<Rightarrow> bool" where
  "is_space c \<longleftrightarrow> c \<in> set [9, 10, 11, 12, 13, 28, 29, 30, 31, 32, 133, 160, 5760,
     8192, 8193, 8194, 8195, 8196, 8197, 8198, 8199, 8200, 8201, 8202,
     8232, 8233, 8239, 8287, 12288]"

text \<open>\<open>s.split()\<close>: the maximal runs of non-whitespace code points, in order.\<close>

function py_split :: "ustring \<Rightarrow> ustring list" where
  "py_split [] = []"
| "py_split (c # cs) =
     (if is_space c then py_split cs
      else (c # takeWhile (\<lambda>x. \<not> is_space x) cs) # py_split (dropWhile (\<lambda>x. \<not> is_space x) cs))"
  by pat_completeness auto
termination
  by (relation "measure length") (auto simp: less_Suc_eq_le length_dropWhile_le)

text \<open>\<open>sep.join(words)\<close>.\<close>

fun py_join :: "ustring \<Rightarrow> ustring list \<Rightarrow> ustring" where
  "py_join sep [] = []"
| "py_join sep [w] = w"
| "py_join sep (w # v # ws) = w @ sep @ py_join sep (v # ws)"

text \<open>\<open>s.strip()\<close>: leading and trailing whitespace removed.\<close>

definition py_strip :: "ustring \<Rightarrow> ustring" where
  "py_strip s = rev (dropWhile is_space (rev (dropWhile is_space s)))"

text \<open>\<open>kw in text\<close> on strings: \<open>kw\<close> occurs as a contiguous substring.\<close>

fun starts_with :: "ustring \<Rightarrow> ustring \<Rightarrow> bool" where
  "starts_with [] t = True"
| "starts_with (k # ks) [] = False"
| "starts_with (k # ks) (c # cs) = (k = c \<and> starts_with ks cs)"

fun py_in :: "ustring \<Rightarrow> ustring \<Rightarrow> bool" where
  "py_in kw [] = (kw = [])"
| "py_in kw (c # cs) = (starts_with kw (c # cs) \<or> py_in kw cs)"

subsection \<open>\<open>int(x)\<close>\<close>

text \<open>
  The zeros of the decimal digit blocks of Unicode 14 (the \<open>Nd\<close> category): every block is
  ten consecutive code points, zero first.
\<close>

definition nd_zeros :: "nat list" where
  "nd_zeros = [48, 1632, 1776, 1984, 2406, 2534, 2662, 2790, 2918, 3046, 3174, 3302, 3430,
     3558, 3664, 3792, 3872, 4160, 4240, 6112, 6160, 6470, 6608, 6784, 6800, 6992, 7088, 7232,
     7248, 42528, 43216, 43264, 43472, 43504, 43600, 44016, 65296, 66720, 68912, 69734, 69872,
     69942, 70096, 70384, 70736, 70864, 71248, 71360, 71472, 71904, 72016, 72784, 73040, 73120,
     92768, 92864, 93008, 120782, 120792, 120802, 120812, 120822, 123200, 123632, 125264,
     130032]"

definition decimal_value :: "nat \<Rightarrow> nat option" where
  "decimal_value c =
     (case filter (\<lambda>z. z \<le> c \<and> c < z + 10) nd_zeros of
        [] \<Rightarrow> None
      | z # _ \<Rightarrow> Some (c - z))"

text \<open>
  Whitespace around the number: \<open>int\<close> maps the non-ASCII Unicode spaces to a blank and then
  skips the ASCII whitespace of C, so the ASCII separators 28 to 31 are not skipped.
\<close>

definition int_space :: "nat \<Rightarrow> bool" where
  "int_space c \<longleftrightarrow> c \<in> set [9, 10, 11, 12, 13, 32] \<or> (127 \<le> c \<and> is_space c)"

text \<open>
  The digits after the first one: each is a digit, or one underscore followed by a digit.
  The result is the value and the number of digits read.
\<close>

fun more_digits :: "nat \<Rightarrow> nat \<Rightarrow> ustring \<Rightarrow> (nat \<times> nat) option" where
  "more_digits acc n [] = Some (acc, n)"
| "more_digits acc n (c # cs) =
     (if c = 95 then
        (case cs of
           [] \<Rightarrow> None
         | d # ds \<Rightarrow>
             (case decimal_value d of
                None \<Rightarrow> None
              | Some v \<Rightarrow> more_digits (10 * acc + v) (n + 1) ds))
      else
        (case decimal_value c of
           None \<Rightarrow> None
         | Some v \<Rightarrow> more_digits (10 * acc + v) (n + 1) cs))"

definition digits_value :: "ustring \<Rightarrow> nat option" where
  "digits_value s =
     (case s of
        [] \<Rightarrow> None
      | c # cs \<Rightarrow>
          (case decimal_value c of
             None \<Rightarrow> None
           | Some v \<Rightarrow>
               (case more_digits v 1 cs of
                  None \<Rightarrow> None
                | Some (m, n) \<Rightarrow> if 4300 < n then None else Some m)))"

text \<open>
  \<open>int(s)\<close> for a string, base ten: surrounding whitespace, an optional sign, digits with
  single underscores between them. \<open>None\<close> is the \<open>ValueError\<close>; the default limit of 4300
  digits of the interpreter is one of its causes.
\<close>

definition int_of_str :: "ustring \<Rightarrow> int option" where
  "int_of_str s =
     (let t = rev (dropWhile int_space (rev (dropWhile int_space s))) in
      case t of
        [] \<Rightarrow> None
      | c # cs \<Rightarrow>
          if c = 45 then map_option (\<lambda>m. - int m) (digits_value cs)
          else if c = 43 then map_option int (digits_value cs)
          else map_option int (digits_value t))"

text \<open>\<open>int(x)\<close> for a float truncates towards zero.\<close>

definition trunc :: "rat \<Rightarrow> int" where
  "trunc q = (if 0 \<le> q then \<lfloor>q\<rfloor> else \<lceil>q\<rceil>)"

fun py_int :: "jval \<Rightarrow> error + int" where
  "py_int JNull = Inl TypeError"
| "py_int (JBool b) = Inr (if b then 1 else 0)"
| "py_int (JInt n) = Inr n"
| "py_int (JFloat (Finite q)) = Inr (trunc q)"
| "py_int (JFloat NaN) = Inl ValueError"
| "py_int (JFloat PosInf) = Inl OverflowError"
| "py_int (JFloat NegInf) = Inl OverflowError"
| "py_int (JStr s) = (case int_of_str s of None \<Rightarrow> Inl ValueError | Some n \<Rightarrow> Inr n)"
| "py_int (JList xs) = Inl TypeError"
| "py_int (JObj kvs) = Inl TypeError"

text \<open>\<open>r != v\<close> for an int \<open>r\<close> and a JSON value \<open>v\<close>: numbers compare by value, a bool
  counts as 0 or 1, anything else differs from an int.\<close>

fun int_ne :: "int \<Rightarrow> jval \<Rightarrow> bool" where
  "int_ne r (JInt n) = (r \<noteq> n)"
| "int_ne r (JBool b) = (r \<noteq> (if b then 1 else 0))"
| "int_ne r (JFloat (Finite q)) = (of_int r \<noteq> q)"
| "int_ne r v = True"

section \<open>The similarity ratio\<close>

text \<open>
  \<open>similar(a, b)\<close> is \<open>SequenceMatcher(None, a, b).ratio()\<close> of Python's \<open>difflib\<close>: no junk
  predicate, and the automatic junk heuristic left on. The matcher is modelled after the
  library's source: \<open>__chain_b\<close>, \<open>find_longest_match\<close>, \<open>get_matching_blocks\<close>, \<open>ratio\<close>.
\<close>

text \<open>
  \<open>__chain_b\<close>: \<open>b2j\<close> maps an element to the increasing list of its positions in \<open>b\<close>.
  When \<open>b\<close> has 200 elements or more, the elements that occur more than
  \<open>len(b) // 100 + 1\<close> times are popular and are deleted from \<open>b2j\<close>. The set of junk
  elements stays empty, as there is no junk predicate.
\<close>

definition popular :: "ustring \<Rightarrow> nat \<Rightarrow> bool" where
  "popular b x \<longleftrightarrow> 200 \<le> length b \<and> length b div 100 + 1 < length (filter (\<lambda>y. y = x) b)"

text \<open>\<open>b2j.get(x, nothing)\<close>.\<close>

definition b2j :: "ustring \<Rightarrow> nat \<Rightarrow> nat list" where
  "b2j b x = (if popular b x then [] else filter (\<lambda>j. b ! j = x) [0..<length b])"

text \<open>\<open>j2len.get(j-1, 0)\<close>: no key is negative, so the lookup for \<open>j = 0\<close> gives the default.\<close>

definition j2lenget :: "(nat \<rightharpoonup> nat) \<Rightarrow> nat \<Rightarrow> nat" where
  "j2lenget j2len j = (if j = 0 then 0 else case j2len (j - 1) of None \<Rightarrow> 0 | Some k \<Rightarrow> k)"

text \<open>
  The inner loop of \<open>find_longest_match\<close> over the positions \<open>j\<close> of \<open>a[i]\<close> in \<open>b\<close>; the
  state is \<open>newj2len\<close> and the best block \<open>(besti, bestj, bestsize)\<close>. The indices
  \<open>i-k+1\<close> and \<open>j-k+1\<close> are never negative (\<open>k\<close> is at most the number of rows and of
  columns visited), so natural numbers carry them.
\<close>

fun inner_loop :: "nat \<Rightarrow> nat \<Rightarrow> nat \<Rightarrow> (nat \<rightharpoonup> nat) \<Rightarrow> nat list \<Rightarrow>
    (nat \<rightharpoonup> nat) \<times> nat \<times> nat \<times> nat \<Rightarrow> (nat \<rightharpoonup> nat) \<times> nat \<times> nat \<times> nat" where
  "inner_loop i blo bhi j2len [] st = st"
| "inner_loop i blo bhi j2len (j # js) (newj2len, besti, bestj, bestsize) =
     (if j < blo then inner_loop i blo bhi j2len js (newj2len, besti, bestj, bestsize)
      else if bhi \<le> j then (newj2len, besti, bestj, bestsize)
      else
        (let k = j2lenget j2len j + 1 in
         if bestsize < k
         then inner_loop i blo bhi j2len js (newj2len(j \<mapsto> k), i + 1 - k, j + 1 - k, k)
         else inner_loop i blo bhi j2len js (newj2len(j \<mapsto> k), besti, bestj, bestsize)))"

text \<open>The loop \<open>for i in range(alo, ahi)\<close>; the state is \<open>j2len\<close> and the best block.\<close>

fun outer_loop :: "ustring \<Rightarrow> ustring \<Rightarrow> nat \<Rightarrow> nat \<Rightarrow> nat list \<Rightarrow>
    (nat \<rightharpoonup> nat) \<times> nat \<times> nat \<times> nat \<Rightarrow> nat \<times> nat \<times> nat" where
  "outer_loop a b blo bhi [] (j2len, best) = best"
| "outer_loop a b blo bhi (i # is) (j2len, best) =
     outer_loop a b blo bhi is (inner_loop i blo bhi j2len (b2j b (a ! i)) (Map.empty, best))"

text \<open>
  The two loops that extend the best block by equal elements on each end. With no junk,
  \<open>isbjunk\<close> is false everywhere: the test \<open>not isbjunk(...)\<close> always passes, and the two
  later loops, which extend by junk only, never run.
\<close>

function extend_left :: "ustring \<Rightarrow> ustring \<Rightarrow> nat \<Rightarrow> nat \<Rightarrow> nat \<times> nat \<times> nat \<Rightarrow> nat \<times> nat \<times> nat" where
  "extend_left a b alo blo (besti, bestj, bestsize) =
     (if alo < besti \<and> blo < bestj \<and> a ! (besti - 1) = b ! (bestj - 1)
      then extend_left a b alo blo (besti - 1, bestj - 1, bestsize + 1)
      else (besti, bestj, bestsize))"
  by pat_completeness auto
termination
  by (relation "measure (\<lambda>(a, b, alo, blo, besti, bestj, bestsize). besti)") auto

function extend_right :: "ustring \<Rightarrow> ustring \<Rightarrow> nat \<Rightarrow> nat \<Rightarrow> nat \<times> nat \<times> nat \<Rightarrow> nat \<times> nat \<times> nat" where
  "extend_right a b ahi bhi (besti, bestj, bestsize) =
     (if besti + bestsize < ahi \<and> bestj + bestsize < bhi \<and>
         a ! (besti + bestsize) = b ! (bestj + bestsize)
      then extend_right a b ahi bhi (besti, bestj, bestsize + 1)
      else (besti, bestj, bestsize))"
  by pat_completeness auto
termination
  by (relation "measure (\<lambda>(a, b, ahi, bhi, besti, bestj, bestsize). ahi - (besti + bestsize))") auto

declare extend_left.simps [simp del] extend_right.simps [simp del]

definition find_longest_match :: "ustring \<Rightarrow> ustring \<Rightarrow> nat \<Rightarrow> nat \<Rightarrow> nat \<Rightarrow> nat \<Rightarrow> nat \<times> nat \<times> nat" where
  "find_longest_match a b alo ahi blo bhi =
     extend_right a b ahi bhi
       (extend_left a b alo blo
          (outer_loop a b blo bhi [alo..<ahi] (Map.empty, alo, blo, 0)))"

text \<open>
  The best block lies inside the rows searched. The loop of \<open>get_matching_blocks\<close>
  terminates for that reason.
\<close>

lemma inner_loop_bounds:
  assumes "\<forall>j v. j2len j = Some v \<longrightarrow> v \<le> r"
    and "\<forall>j v. new j = Some v \<longrightarrow> v \<le> r + 1"
    and "i = alo + r"
    and "alo \<le> bi" and "if bs = 0 then bi = alo else bi + bs \<le> i + 1"
    and "inner_loop i blo bhi j2len js (new, bi, bj, bs) = (new', bi', bj', bs')"
  shows "(\<forall>j v. new' j = Some v \<longrightarrow> v \<le> r + 1) \<and> alo \<le> bi' \<and>
         (if bs' = 0 then bi' = alo else bi' + bs' \<le> i + 1)"
  using assms
proof (induction js arbitrary: new bi bj bs)
  case Nil
  then show ?case by (auto split: if_splits)
next
  case (Cons j js)
  have k: "j2lenget j2len j \<le> r"
    using Cons.prems(1) by (auto simp: j2lenget_def split: option.splits)
  show ?case
  proof (cases "j < blo")
    case True
    then have "inner_loop i blo bhi j2len js (new, bi, bj, bs) = (new', bi', bj', bs')"
      using Cons.prems(6) by simp
    then show ?thesis
      using Cons.IH[OF Cons.prems(1) Cons.prems(2) Cons.prems(3) Cons.prems(4) Cons.prems(5)] by blast
  next
    case nb: False
    show ?thesis
    proof (cases "bhi \<le> j")
      case True
      then have "(new, bi, bj, bs) = (new', bi', bj', bs')"
        using Cons.prems(6) nb by simp
      then show ?thesis
        using Cons.prems(2) Cons.prems(4) Cons.prems(5) by auto
    next
      case False
      let ?k = "j2lenget j2len j + 1"
      have new: "\<forall>j' v. (new(j \<mapsto> ?k)) j' = Some v \<longrightarrow> v \<le> r + 1"
        using Cons.prems(2) k by auto
      show ?thesis
      proof (cases "bs < ?k")
        case True
        have "inner_loop i blo bhi j2len js (new(j \<mapsto> ?k), i + 1 - ?k, j + 1 - ?k, ?k) = (new', bi', bj', bs')"
          using Cons.prems(6) nb False True by (simp add: Let_def)
        moreover have "alo \<le> i + 1 - ?k" using k Cons.prems(3) by simp
        moreover have "if ?k = 0 then i + 1 - ?k = alo else i + 1 - ?k + ?k \<le> i + 1"
          using k Cons.prems(3) by simp
        ultimately show ?thesis
          using Cons.IH[OF Cons.prems(1) new Cons.prems(3)] by blast
      next
        case nk: False
        have "inner_loop i blo bhi j2len js (new(j \<mapsto> ?k), bi, bj, bs) = (new', bi', bj', bs')"
          using Cons.prems(6) nb False nk by (simp add: Let_def)
        then show ?thesis
          using Cons.IH[OF Cons.prems(1) new Cons.prems(3) Cons.prems(4) Cons.prems(5)] by blast
      qed
    qed
  qed
qed

lemma outer_loop_bounds:
  assumes "\<forall>j v. j2len j = Some v \<longrightarrow> v \<le> r"
    and "i = alo + r"
    and "alo \<le> bi" and "if bs = 0 then bi = alo else bi + bs \<le> i \<and> i \<le> ahi"
    and "outer_loop a b blo bhi [i..<ahi] (j2len, bi, bj, bs) = (bi', bj', bs')"
  shows "alo \<le> bi' \<and> (if bs' = 0 then bi' = alo else bi' + bs' \<le> ahi)"
  using assms
proof (induction "ahi - i" arbitrary: i r j2len bi bj bs)
  case 0
  then have e: "[i..<ahi] = []" by simp
  have "(bi, bj, bs) = (bi', bj', bs')"
    using "0.prems"(5) unfolding e by simp
  with "0.prems"(3,4) show ?case by (auto split: if_splits)
next
  case (Suc n)
  then have lt: "i < ahi" by simp
  obtain new ci cj cs where st:
    "inner_loop i blo bhi j2len (b2j b (a ! i)) (Map.empty, bi, bj, bs) = (new, ci, cj, cs)"
    by (metis prod_cases4)
  have pre: "if bs = 0 then bi = alo else bi + bs \<le> i + 1"
    using Suc.prems(4) by (auto split: if_splits)
  have inv: "(\<forall>j v. new j = Some v \<longrightarrow> v \<le> r + 1) \<and> alo \<le> ci \<and>
             (if cs = 0 then ci = alo else ci + cs \<le> i + 1)"
    by (rule inner_loop_bounds[OF Suc.prems(1) _ Suc.prems(2) Suc.prems(3) pre st]) simp
  have step: "outer_loop a b blo bhi [Suc i..<ahi] (new, ci, cj, cs) = (bi', bj', bs')"
    using Suc.prems(5) lt st by (simp add: upt_conv_Cons)
  have n: "n = ahi - Suc i" using Suc.hyps(2) by simp
  have a1: "\<forall>j v. new j = Some v \<longrightarrow> v \<le> r + 1" using inv by blast
  have a2: "Suc i = alo + (r + 1)" using Suc.prems(2) by simp
  have a3: "alo \<le> ci" using inv by blast
  have a4: "if cs = 0 then ci = alo else ci + cs \<le> Suc i \<and> Suc i \<le> ahi"
    using inv lt by (auto split: if_splits)
  show ?case
    by (rule Suc.hyps(1)[OF n a1 a2 a3 a4 step])
qed

lemma extend_left_bounds:
  "alo \<le> bi \<Longrightarrow> extend_left a b alo blo (bi, bj, bs) = (bi', bj', bs') \<Longrightarrow>
     alo \<le> bi' \<and> bi' + bs' = bi + bs"
proof (induction a b alo blo "(bi, bj, bs)" arbitrary: bi bj bs rule: extend_left.induct)
  case (1 a b alo blo besti bestj bestsize)
  show ?case
  proof (cases "alo < besti \<and> blo < bestj \<and> a ! (besti - 1) = b ! (bestj - 1)")
    case True
    then have "extend_left a b alo blo (besti - 1, bestj - 1, bestsize + 1) = (bi', bj', bs')"
      using "1.prems"(2) by (subst (asm) extend_left.simps) simp
    with "1.hyps"[OF True] True show ?thesis by auto
  next
    case False
    then have "(besti, bestj, bestsize) = (bi', bj', bs')"
      using "1.prems"(2) by (subst (asm) extend_left.simps) (auto split: if_splits)
    then show ?thesis using "1.prems"(1) by simp
  qed
qed

lemma extend_right_bounds:
  "extend_right a b ahi bhi (bi, bj, bs) = (bi', bj', bs') \<Longrightarrow>
     bi' = bi \<and> (bs' = bs \<or> bi' + bs' \<le> ahi)"
proof (induction a b ahi bhi "(bi, bj, bs)" arbitrary: bi bj bs rule: extend_right.induct)
  case (1 a b ahi bhi besti bestj bestsize)
  show ?case
  proof (cases "besti + bestsize < ahi \<and> bestj + bestsize < bhi \<and>
         a ! (besti + bestsize) = b ! (bestj + bestsize)")
    case True
    then have "extend_right a b ahi bhi (besti, bestj, bestsize + 1) = (bi', bj', bs')"
      using "1.prems" by (subst (asm) extend_right.simps) simp
    with "1.hyps"[OF True] True show ?thesis by auto
  next
    case False
    then have "(besti, bestj, bestsize) = (bi', bj', bs')"
      using "1.prems" by (subst (asm) extend_right.simps) (auto split: if_splits)
    then show ?thesis by simp
  qed
qed

lemma find_longest_match_bounds:
  assumes "find_longest_match a b alo ahi blo bhi = (i, j, k)" and "k \<noteq> 0"
  shows "alo \<le> i \<and> i + k \<le> ahi"
proof -
  obtain bi bj bs where o: "outer_loop a b blo bhi [alo..<ahi] (Map.empty, alo, blo, 0) = (bi, bj, bs)"
    by (metis prod_cases3)
  obtain ci cj cs where l: "extend_left a b alo blo (bi, bj, bs) = (ci, cj, cs)"
    by (metis prod_cases3)
  have r: "extend_right a b ahi bhi (ci, cj, cs) = (i, j, k)"
    using assms(1) o l by (simp add: find_longest_match_def)
  have ob: "alo \<le> bi \<and> (if bs = 0 then bi = alo else bi + bs \<le> ahi)"
    by (rule outer_loop_bounds[where r = 0 and i = alo and bs = 0 and bi = alo, OF _ _ _ _ o]) simp_all
  have lb: "alo \<le> ci \<and> ci + cs = bi + bs"
    using extend_left_bounds[OF _ l] ob by simp
  have rb: "i = ci \<and> (k = cs \<or> i + k \<le> ahi)"
    using extend_right_bounds[OF r] by blast
  show ?thesis
  proof (cases "k = cs")
    case True
    with assms(2) lb ob rb show ?thesis by (auto split: if_splits)
  next
    case False
    with rb lb show ?thesis by auto
  qed
qed

text \<open>
  The loop of \<open>get_matching_blocks\<close>. \<open>queue.pop()\<close> takes the last element, so the queue
  is a stack; the head of the list is its top.
\<close>

function blocks_loop :: "ustring \<Rightarrow> ustring \<Rightarrow> (nat \<times> nat \<times> nat \<times> nat) list \<Rightarrow>
    (nat \<times> nat \<times> nat) list \<Rightarrow> (nat \<times> nat \<times> nat) list" where
  "blocks_loop a b [] matching_blocks = matching_blocks"
| "blocks_loop a b ((alo, ahi, blo, bhi) # queue) matching_blocks =
     (case find_longest_match a b alo ahi blo bhi of
        (i, j, k) \<Rightarrow>
          if k \<noteq> 0 then
            blocks_loop a b
              ((if i + k < ahi \<and> j + k < bhi then [(i + k, ahi, j + k, bhi)] else []) @
               (if alo < i \<and> blo < j then [(alo, i, blo, j)] else []) @ queue)
              (matching_blocks @ [(i, j, k)])
          else blocks_loop a b queue matching_blocks)"
  by pat_completeness auto
termination
  apply (relation "measure (\<lambda>(a, b, queue, blocks).
    sum_list (map (\<lambda>(alo, ahi, blo, bhi). 2 * (ahi - alo) + 1) queue))")
    apply simp
  subgoal for a b alo ahi blo bhi queue matching_blocks i y j k
    using find_longest_match_bounds[of a b alo ahi blo bhi i j k] by auto
  subgoal by simp
  done

declare blocks_loop.simps [simp del]

text \<open>The merging of adjacent blocks: \<open>(i1, j1, k1)\<close> is the block being grown.\<close>

fun merge_adjacent :: "nat \<times> nat \<times> nat \<Rightarrow> (nat \<times> nat \<times> nat) list \<Rightarrow>
    (nat \<times> nat \<times> nat) list \<Rightarrow> (nat \<times> nat \<times> nat) list" where
  "merge_adjacent (i1, j1, k1) [] non_adjacent =
     (if k1 \<noteq> 0 then non_adjacent @ [(i1, j1, k1)] else non_adjacent)"
| "merge_adjacent (i1, j1, k1) ((i2, j2, k2) # rest) non_adjacent =
     (if i1 + k1 = i2 \<and> j1 + k1 = j2 then merge_adjacent (i1, j1, k1 + k2) rest non_adjacent
      else merge_adjacent (i2, j2, k2) rest
             (if k1 \<noteq> 0 then non_adjacent @ [(i1, j1, k1)] else non_adjacent))"

definition get_matching_blocks :: "ustring \<Rightarrow> ustring \<Rightarrow> (nat \<times> nat \<times> nat) list" where
  "get_matching_blocks a b =
     merge_adjacent (0, 0, 0) (sort (blocks_loop a b [(0, length a, 0, length b)] [])) []
       @ [(length a, length b, 0)]"

text \<open>
  \<open>ratio\<close> is \<open>2.0 * matches / length\<close>, and 1.0 for two empty sequences. The model keeps
  the exact quotient. The matcher only compares ratios with each other, with 0, with 0.5 and
  with 0.85, for texts cut to 200 code points: the quotients have denominators of at most
  400, so two of them that differ, or one and 17/20, are much further apart than the
  rounding of a double, and the comparisons of the floats agree with those of the quotients.
\<close>

definition ratio :: "ustring \<Rightarrow> ustring \<Rightarrow> rat" where
  "ratio a b =
     (let matches = sum_list (map (\<lambda>(i, j, k). k) (get_matching_blocks a b));
          len = length a + length b
      in if len \<noteq> 0 then 2 * of_nat matches / of_nat len else 1)"

definition similar :: "ustring \<Rightarrow> ustring \<Rightarrow> rat" where
  "similar a b = ratio a b"

section \<open>The matcher (compare\_api.py)\<close>

text \<open>\<open>clean_text\<close>: the marker U+06DD removed, whitespace runs collapsed, the ends trimmed.\<close>

definition clean_text :: "ustring \<Rightarrow> ustring" where
  "clean_text t = py_strip (py_join [32] (py_split (filter (\<lambda>c. c \<noteq> 1757) t)))"

text \<open>
  A remote item is a dict of the reference service; the script reads its keys with \<open>get\<close>,
  so each may be missing. A local item is a dict of the two local corpora, read with \<open>get\<close>
  as well: the text, and the \<open>max\<close> entry of its \<open>repeat\<close> dict.
\<close>

record remote_item =
  ARABIC_TEXT :: "ustring option"
  TITLE :: "ustring option"
  REPEAT :: "jval option"
  REFERENCE :: "ustring option"

record local_item =
  l_text :: "ustring option"
  l_repeat :: "jval option option"

text \<open>
  An entry of \<open>report_items\<close>. The script renders the two last columns as text; the entry
  keeps what is rendered: the excerpts, the two counts, the ratio.
\<close>

datatype report_item =
    Repeat_Mismatch ustring ustring ustring int ustring jval
  | Potential_Mismatch ustring ustring ustring ustring rat
  | Missing ustring ustring ustring

definition get_or :: "'a \<Rightarrow> 'a option \<Rightarrow> 'a" where
  "get_or d v = (case v of None \<Rightarrow> d | Some x \<Rightarrow> x)"

text \<open>
  The scan of the local collection for one remote text: the result of the inner \<open>for\<close> loop
  is either the local item at which it broke (\<open>found\<close>), or the best ratio and the best
  candidate of the whole scan.
\<close>

datatype scan = Found local_item | Not_found rat "local_item option"

fun scan_local :: "ustring \<Rightarrow> local_item list \<Rightarrow> rat \<Rightarrow> local_item option \<Rightarrow> scan" where
  "scan_local r_text [] best_ratio best_match = Not_found best_ratio best_match"
| "scan_local r_text (l_item # rest) best_ratio best_match =
     (let l_text = clean_text (get_or [] (l_text l_item));
          ratio = similar (take 200 r_text) (take 200 l_text);
          best = (if ratio > best_ratio then (ratio, Some l_item) else (best_ratio, best_match))
      in if ratio > 85 / 100 then Found l_item
         else scan_local r_text rest (fst best) (snd best))"

text \<open>\<open>int(r_item.get('REPEAT', 1)) if r_item.get('REPEAT') else 1\<close>\<close>

definition r_rep_of :: "remote_item \<Rightarrow> error + int" where
  "r_rep_of r_item =
     (case REPEAT r_item of
        None \<Rightarrow> Inr 1
      | Some v \<Rightarrow> if truthy v then py_int v else Inr 1)"

text \<open>\<open>l_item.get('repeat', {}).get('max', 1)\<close>\<close>

definition l_rep_of :: "local_item \<Rightarrow> jval" where
  "l_rep_of l_item =
     (case l_repeat l_item of
        None \<Rightarrow> JInt 1
      | Some None \<Rightarrow> JInt 1
      | Some (Some v) \<Rightarrow> v)"

text \<open>The body of the loop over the remote items: the entries it appends to the report.\<close>

definition compare_item :: "ustring \<Rightarrow> local_item list \<Rightarrow> remote_item \<Rightarrow> error + report_item list" where
  "compare_item rname local_all r_item =
     (let r_text = clean_text (get_or [] (ARABIC_TEXT r_item));
          r_title = get_or [] (TITLE r_item)
      in case scan_local r_text local_all 0 None of
           Found l_item \<Rightarrow>
             (case r_rep_of r_item of
                Inl e \<Rightarrow> Inl e
              | Inr r_rep \<Rightarrow>
                  (let l_rep = l_rep_of l_item in
                   if int_ne r_rep l_rep
                   then Inr [Repeat_Mismatch rname r_title (take 100 r_text) r_rep
                               (take 100 (clean_text (get_or [] (l_text l_item)))) l_rep]
                   else Inr []))
         | Not_found best_ratio best_match \<Rightarrow>
             if best_ratio > 1 / 2 then
               (case best_match of
                  None \<Rightarrow> Inl AttributeError
                | Some m \<Rightarrow>
                    Inr [Potential_Mismatch rname r_title (take 200 r_text)
                           (take 200 (clean_text (get_or [] (l_text m)))) best_ratio])
             else Inr [Missing rname r_title (take 200 r_text)])"

fun compare_items :: "ustring \<Rightarrow> local_item list \<Rightarrow> remote_item list \<Rightarrow> report_item list \<Rightarrow>
    error + report_item list" where
  "compare_items rname local_all [] report_items = Inr report_items"
| "compare_items rname local_all (r_item # rest) report_items =
     (case compare_item rname local_all r_item of
        Inl e \<Rightarrow> Inl e
      | Inr found \<Rightarrow> compare_items rname local_all rest (report_items @ found))"

text \<open>
  \<open>run_comparison\<close> up to the report entries. The four remote categories are fetched in the
  order of the \<open>mappings\<close> dict; \<open>fetch\<close> gives the items of a remote category, or \<open>None\<close>
  when nothing usable came back and the category is skipped.
\<close>

definition mappings :: "(nat \<times> ustring) list" where
  "mappings =
     [(27, [1571, 1584, 1603, 1575, 1585, 32, 1575, 1604, 1589, 1576, 1575, 1581, 32, 1608,
            1575, 1604, 1605, 1587, 1575, 1569]),
      (28, [1571, 1584, 1603, 1575, 1585, 32, 1575, 1604, 1606, 1608, 1605]),
      (1, [1571, 1584, 1603, 1575, 1585, 32, 1575, 1604, 1575, 1587, 1578, 1610, 1602, 1575,
           1592, 32, 1605, 1606, 32, 1575, 1604, 1606, 1608, 1605]),
      (25, [1575, 1604, 1571, 1584, 1603, 1575, 1585, 32, 1576, 1593, 1583, 32, 1575, 1604,
            1587, 1604, 1575, 1605, 32, 1605, 1606, 32, 1575, 1604, 1589, 1604, 1575, 1577])]"

fun compare_categories :: "(nat \<Rightarrow> remote_item list option) \<Rightarrow> local_item list \<Rightarrow>
    (nat \<times> ustring) list \<Rightarrow> report_item list \<Rightarrow> error + report_item list" where
  "compare_categories fetch local_all [] report_items = Inr report_items"
| "compare_categories fetch local_all ((rid, rname) # rest) report_items =
     (case fetch rid of
        None \<Rightarrow> compare_categories fetch local_all rest report_items
      | Some remote_items \<Rightarrow>
          (case compare_items rname local_all remote_items report_items of
             Inl e \<Rightarrow> Inl e
          | Inr report_items' \<Rightarrow> compare_categories fetch local_all rest report_items'))"

definition run_comparison :: "(nat \<Rightarrow> remote_item list option) \<Rightarrow> local_item list \<Rightarrow>
    local_item list \<Rightarrow> error + report_item list" where
  "run_comparison fetch daily_data hisn_data =
     compare_categories fetch (daily_data @ hisn_data) mappings []"

subsection \<open>The decision policy in the words of the specification\<close>

text \<open>The ratio that the scan computes for one local item.\<close>

definition score :: "ustring \<Rightarrow> local_item \<Rightarrow> rat" where
  "score r_text l_item =
     similar (take 200 r_text) (take 200 (clean_text (get_or [] (l_text l_item))))"

text \<open>
  The three statuses of a remote item. The policy reads the specification: the first local
  candidate that scores above 0.85 is the match; otherwise the best-scoring candidate (the
  first one with the highest score) is reported when it scores above 0.50; otherwise the
  item is missing.
\<close>

datatype outcome = Is_Matched local_item | Is_Potential local_item rat | Is_Missing

definition policy :: "ustring \<Rightarrow> local_item list \<Rightarrow> outcome" where
  "policy r_text local_all =
     (case find (\<lambda>l. 85 / 100 < score r_text l) local_all of
        Some l \<Rightarrow> Is_Matched l
      | None \<Rightarrow>
          if local_all \<noteq> [] \<and> 1 / 2 < Max (set (map (score r_text) local_all)) then
            (case find (\<lambda>l. score r_text l = Max (set (map (score r_text) local_all))) local_all of
               Some m \<Rightarrow> Is_Potential m (score r_text m)
             | None \<Rightarrow> Is_Missing)
          else Is_Missing)"

text \<open>What is reported for a status: the repeat counts are compared for a match.\<close>

definition report_of :: "ustring \<Rightarrow> remote_item \<Rightarrow> outcome \<Rightarrow> error + report_item list" where
  "report_of rname r_item out =
     (let r_text = clean_text (get_or [] (ARABIC_TEXT r_item));
          r_title = get_or [] (TITLE r_item)
      in case out of
           Is_Matched l_item \<Rightarrow>
             (case r_rep_of r_item of
                Inl e \<Rightarrow> Inl e
              | Inr r_rep \<Rightarrow>
                  if int_ne r_rep (l_rep_of l_item)
                  then Inr [Repeat_Mismatch rname r_title (take 100 r_text) r_rep
                              (take 100 (clean_text (get_or [] (l_text l_item)))) (l_rep_of l_item)]
                  else Inr [])
         | Is_Potential m best \<Rightarrow>
             Inr [Potential_Mismatch rname r_title (take 200 r_text)
                    (take 200 (clean_text (get_or [] (l_text m)))) best]
         | Is_Missing \<Rightarrow> Inr [Missing rname r_title (take 200 r_text)])"

section \<open>The reclassifier (convert\_adhkar.py)\<close>

text \<open>An ASCII literal of the scripts, as code points.\<close>

definition ascii :: "string \<Rightarrow> ustring" where
  "ascii s = map of_char s"

text \<open>\<open>str(n)\<close> and the format \<open>{n:03d}\<close> for an int: decimal digits, a minus sign for a
  negative number, and for the format zeros after the sign up to three characters.\<close>

fun digits :: "nat \<Rightarrow> ustring" where
  "digits n = (if n < 10 then [48 + n] else digits (n div 10) @ [48 + n mod 10])"

declare digits.simps [simp del]

definition str_int :: "int \<Rightarrow> ustring" where
  "str_int i = (if i < 0 then 45 # digits (nat (- i)) else digits (nat i))"

definition zfill :: "nat \<Rightarrow> ustring \<Rightarrow> ustring" where
  "zfill w ds = replicate (w - length ds) 48 @ ds"

definition format_03d :: "int \<Rightarrow> ustring" where
  "format_03d i = (if i < 0 then 45 # zfill 2 (digits (nat (- i))) else zfill 3 (digits (nat i)))"

text \<open>
  \<open>CATEGORY_MAP\<close>: source category id to \<open>(source, category, hisnCategory)\<close>, in the
  order of the script.
\<close>

definition CATEGORY_MAP :: "int \<rightharpoonup> ustring \<times> ustring option \<times> ustring option" where
  "CATEGORY_MAP = map_of
     [(1, ascii ''daily'', None, None),
      (2, ascii ''daily'', Some (ascii ''sleep''), None),
      (27, ascii ''daily'', Some (ascii ''after_prayer''), None),
      (3, ascii ''hisn'', Some (ascii ''hisn''), Some (ascii ''waking'')),
      (4, ascii ''hisn'', Some (ascii ''hisn''), Some (ascii ''home'')),
      (5, ascii ''hisn'', Some (ascii ''hisn''), Some (ascii ''home'')),
      (6, ascii ''hisn'', Some (ascii ''hisn''), Some (ascii ''wudu'')),
      (7, ascii ''hisn'', Some (ascii ''hisn''), Some (ascii ''wudu'')),
      (8, ascii ''hisn'', Some (ascii ''hisn''), Some (ascii ''home'')),
      (9, ascii ''hisn'', Some (ascii ''hisn''), Some (ascii ''home'')),
      (10, ascii ''hisn'', Some (ascii ''hisn''), Some (ascii ''prayer'')),
      (11, ascii ''hisn'', Some (ascii ''hisn''), Some (ascii ''prayer'')),
      (12, ascii ''hisn'', Some (ascii ''hisn''), Some (ascii ''prayer'')),
      (13, ascii ''hisn'', Some (ascii ''hisn''), Some (ascii ''adhan'')),
      (14, ascii ''hisn'', Some (ascii ''hisn''), Some (ascii ''misc'')),
      (15, ascii ''hisn'', Some (ascii ''hisn''), Some (ascii ''misc'')),
      (16, ascii ''hisn'', Some (ascii ''hisn''), Some (ascii ''misc'')),
      (17, ascii ''hisn'', Some (ascii ''hisn''), Some (ascii ''misc'')),
      (18, ascii ''hisn'', Some (ascii ''hisn''), Some (ascii ''prayer'')),
      (19, ascii ''hisn'', Some (ascii ''hisn''), Some (ascii ''prayer'')),
      (20, ascii ''hisn'', Some (ascii ''hisn''), Some (ascii ''prayer'')),
      (21, ascii ''hisn'', Some (ascii ''hisn''), Some (ascii ''prayer'')),
      (22, ascii ''hisn'', Some (ascii ''hisn''), Some (ascii ''prayer'')),
      (23, ascii ''hisn'', Some (ascii ''hisn''), Some (ascii ''prayer'')),
      (24, ascii ''hisn'', Some (ascii ''hisn''), Some (ascii ''prayer'')),
      (25, ascii ''hisn'', Some (ascii ''hisn''), Some (ascii ''prayer'')),
      (26, ascii ''hisn'', Some (ascii ''hisn''), Some (ascii ''prayer'')),
      (28, ascii ''hisn'', Some (ascii ''hisn''), Some (ascii ''prayer'')),
      (29, ascii ''hisn'', Some (ascii ''hisn''), Some (ascii ''sleeping'')),
      (30, ascii ''hisn'', Some (ascii ''hisn''), Some (ascii ''sleeping'')),
      (31, ascii ''hisn'', Some (ascii ''hisn''), Some (ascii ''sleeping'')),
      (32, ascii ''hisn'', Some (ascii ''hisn''), Some (ascii ''prayer'')),
      (33, ascii ''hisn'', Some (ascii ''hisn''), Some (ascii ''prayer'')),
      (34, ascii ''hisn'', Some (ascii ''hisn''), Some (ascii ''distress'')),
      (35, ascii ''hisn'', Some (ascii ''hisn''), Some (ascii ''distress'')),
      (36, ascii ''hisn'', Some (ascii ''hisn''), Some (ascii ''protection'')),
      (37, ascii ''hisn'', Some (ascii ''hisn''), Some (ascii ''protection'')),
      (38, ascii ''hisn'', Some (ascii ''hisn''), Some (ascii ''protection'')),
      (39, ascii ''hisn'', Some (ascii ''hisn''), Some (ascii ''protection'')),
      (40, ascii ''hisn'', Some (ascii ''hisn''), Some (ascii ''protection'')),
      (41, ascii ''hisn'', Some (ascii ''hisn''), Some (ascii ''distress'')),
      (42, ascii ''hisn'', Some (ascii ''hisn''), Some (ascii ''prayer'')),
      (43, ascii ''hisn'', Some (ascii ''hisn''), Some (ascii ''distress'')),
      (44, ascii ''hisn'', Some (ascii ''hisn''), Some (ascii ''forgiveness'')),
      (45, ascii ''hisn'', Some (ascii ''hisn''), Some (ascii ''protection'')),
      (46, ascii ''hisn'', Some (ascii ''hisn''), Some (ascii ''misc'')),
      (47, ascii ''hisn'', Some (ascii ''hisn''), Some (ascii ''misc'')),
      (48, ascii ''hisn'', Some (ascii ''hisn''), Some (ascii ''protection'')),
      (49, ascii ''hisn'', Some (ascii ''hisn''), Some (ascii ''illness'')),
      (50, ascii ''hisn'', Some (ascii ''hisn''), Some (ascii ''illness'')),
      (51, ascii ''hisn'', Some (ascii ''hisn''), Some (ascii ''illness'')),
      (52, ascii ''hisn'', Some (ascii ''hisn''), Some (ascii ''illness'')),
      (53, ascii ''hisn'', Some (ascii ''hisn''), Some (ascii ''illness'')),
      (54, ascii ''hisn'', Some (ascii ''hisn''), Some (ascii ''illness'')),
      (55, ascii ''hisn'', Some (ascii ''hisn''), Some (ascii ''illness'')),
      (56, ascii ''hisn'', Some (ascii ''hisn''), Some (ascii ''illness'')),
      (57, ascii ''hisn'', Some (ascii ''hisn''), Some (ascii ''illness'')),
      (58, ascii ''hisn'', Some (ascii ''hisn''), Some (ascii ''illness'')),
      (59, ascii ''hisn'', Some (ascii ''hisn''), Some (ascii ''illness'')),
      (60, ascii ''hisn'', Some (ascii ''hisn''), Some (ascii ''illness'')),
      (61, ascii ''hisn'', Some (ascii ''hisn''), Some (ascii ''misc'')),
      (62, ascii ''hisn'', Some (ascii ''hisn''), Some (ascii ''misc'')),
      (63, ascii ''hisn'', Some (ascii ''hisn''), Some (ascii ''misc'')),
      (64, ascii ''hisn'', Some (ascii ''hisn''), Some (ascii ''misc'')),
      (65, ascii ''hisn'', Some (ascii ''hisn''), Some (ascii ''misc'')),
      (66, ascii ''hisn'', Some (ascii ''hisn''), Some (ascii ''misc'')),
      (67, ascii ''hisn'', Some (ascii ''hisn''), Some (ascii ''misc'')),
      (68, ascii ''hisn'', Some (ascii ''hisn''), Some (ascii ''food'')),
      (69, ascii ''hisn'', Some (ascii ''hisn''), Some (ascii ''food'')),
      (70, ascii ''hisn'', Some (ascii ''hisn''), Some (ascii ''food'')),
      (71, ascii ''hisn'', Some (ascii ''hisn''), Some (ascii ''food'')),
      (72, ascii ''hisn'', Some (ascii ''hisn''), Some (ascii ''food'')),
      (73, ascii ''hisn'', Some (ascii ''hisn''), Some (ascii ''food'')),
      (74, ascii ''hisn'', Some (ascii ''hisn''), Some (ascii ''food'')),
      (75, ascii ''hisn'', Some (ascii ''hisn''), Some (ascii ''food'')),
      (76, ascii ''hisn'', Some (ascii ''hisn''), Some (ascii ''food'')),
      (77, ascii ''hisn'', Some (ascii ''hisn''), Some (ascii ''misc'')),
      (78, ascii ''hisn'', Some (ascii ''hisn''), Some (ascii ''misc'')),
      (79, ascii ''hisn'', Some (ascii ''hisn''), Some (ascii ''misc'')),
      (80, ascii ''hisn'', Some (ascii ''hisn''), Some (ascii ''misc'')),
      (81, ascii ''hisn'', Some (ascii ''hisn''), Some (ascii ''misc'')),
      (82, ascii ''hisn'', Some (ascii ''hisn''), Some (ascii ''protection'')),
      (83, ascii ''hisn'', Some (ascii ''hisn''), Some (ascii ''misc'')),
      (84, ascii ''hisn'', Some (ascii ''hisn''), Some (ascii ''misc'')),
      (85, ascii ''hisn'', Some (ascii ''hisn''), Some (ascii ''misc'')),
      (86, ascii ''hisn'', Some (ascii ''hisn''), Some (ascii ''misc'')),
      (87, ascii ''hisn'', Some (ascii ''hisn''), Some (ascii ''gratitude'')),
      (88, ascii ''hisn'', Some (ascii ''hisn''), Some (ascii ''protection'')),
      (89, ascii ''hisn'', Some (ascii ''hisn''), Some (ascii ''misc'')),
      (90, ascii ''hisn'', Some (ascii ''hisn''), Some (ascii ''misc'')),
      (91, ascii ''hisn'', Some (ascii ''hisn''), Some (ascii ''misc'')),
      (92, ascii ''hisn'', Some (ascii ''hisn''), Some (ascii ''protection'')),
      (93, ascii ''hisn'', Some (ascii ''hisn''), Some (ascii ''misc'')),
      (94, ascii ''hisn'', Some (ascii ''hisn''), Some (ascii ''protection'')),
      (95, ascii ''hisn'', Some (ascii ''hisn''), Some (ascii ''travel'')),
      (96, ascii ''hisn'', Some (ascii ''hisn''), Some (ascii ''travel'')),
      (97, ascii ''hisn'', Some (ascii ''hisn''), Some (ascii ''travel'')),
      (98, ascii ''hisn'', Some (ascii ''hisn''), Some (ascii ''travel'')),
      (99, ascii ''hisn'', Some (ascii ''hisn''), Some (ascii ''travel'')),
      (100, ascii ''hisn'', Some (ascii ''hisn''), Some (ascii ''travel'')),
      (101, ascii ''hisn'', Some (ascii ''hisn''), Some (ascii ''travel'')),
      (102, ascii ''hisn'', Some (ascii ''hisn''), Some (ascii ''travel'')),
      (103, ascii ''hisn'', Some (ascii ''hisn''), Some (ascii ''travel'')),
      (104, ascii ''hisn'', Some (ascii ''hisn''), Some (ascii ''travel'')),
      (105, ascii ''hisn'', Some (ascii ''hisn''), Some (ascii ''travel'')),
      (106, ascii ''hisn'', Some (ascii ''hisn''), Some (ascii ''misc'')),
      (107, ascii ''hisn'', Some (ascii ''hisn''), Some (ascii ''prayer'')),
      (108, ascii ''hisn'', Some (ascii ''hisn''), Some (ascii ''misc'')),
      (109, ascii ''hisn'', Some (ascii ''hisn''), Some (ascii ''misc'')),
      (110, ascii ''hisn'', Some (ascii ''hisn''), Some (ascii ''misc'')),
      (111, ascii ''hisn'', Some (ascii ''hisn''), Some (ascii ''misc'')),
      (112, ascii ''hisn'', Some (ascii ''hisn''), Some (ascii ''forgiveness'')),
      (113, ascii ''hisn'', Some (ascii ''hisn''), Some (ascii ''misc'')),
      (114, ascii ''hisn'', Some (ascii ''hisn''), Some (ascii ''misc'')),
      (115, ascii ''hisn'', Some (ascii ''hisn''), Some (ascii ''misc'')),
      (116, ascii ''hisn'', Some (ascii ''hisn''), Some (ascii ''misc'')),
      (117, ascii ''hisn'', Some (ascii ''hisn''), Some (ascii ''misc'')),
      (118, ascii ''hisn'', Some (ascii ''hisn''), Some (ascii ''misc'')),
      (119, ascii ''hisn'', Some (ascii ''hisn''), Some (ascii ''misc'')),
      (120, ascii ''hisn'', Some (ascii ''hisn''), Some (ascii ''misc'')),
      (121, ascii ''hisn'', Some (ascii ''hisn''), Some (ascii ''misc'')),
      (122, ascii ''hisn'', Some (ascii ''hisn''), Some (ascii ''gratitude'')),
      (123, ascii ''hisn'', Some (ascii ''hisn''), Some (ascii ''gratitude'')),
      (124, ascii ''hisn'', Some (ascii ''hisn''), Some (ascii ''illness'')),
      (125, ascii ''hisn'', Some (ascii ''hisn''), Some (ascii ''protection'')),
      (126, ascii ''hisn'', Some (ascii ''hisn''), Some (ascii ''protection'')),
      (127, ascii ''hisn'', Some (ascii ''hisn''), Some (ascii ''misc'')),
      (128, ascii ''hisn'', Some (ascii ''hisn''), Some (ascii ''protection'')),
      (129, ascii ''hisn'', Some (ascii ''hisn''), Some (ascii ''forgiveness'')),
      (130, ascii ''hisn'', Some (ascii ''hisn''), Some (ascii ''gratitude'')),
      (131, ascii ''hisn'', Some (ascii ''hisn''), Some (ascii ''gratitude'')),
      (132, ascii ''hisn'', Some (ascii ''hisn''), Some (ascii ''misc''))]"

definition MORNING_KEYWORDS :: "ustring list" where
  "MORNING_KEYWORDS =
     [[1571, 1614, 1589, 1618, 1576, 1614, 1581, 1618, 1606, 1614, 1575],
      [1571, 1614, 1589, 1618, 1576, 1614, 1581, 1618, 1578, 1615],
      [1571, 1614, 1589, 1618, 1576, 1614, 1581, 1614],
      [1573, 1584, 1575, 32, 1571, 1589, 1576, 1581, 1614],
      [1573, 1584, 1575, 32, 1571, 1589, 1576, 1581]]"

definition EVENING_KEYWORDS :: "ustring list" where
  "EVENING_KEYWORDS =
     [[1571, 1614, 1605, 1618, 1587, 1614, 1610, 1618, 1606, 1614, 1575],
      [1571, 1614, 1605, 1618, 1587, 1614, 1610, 1618, 1578, 1615],
      [1571, 1614, 1605, 1618, 1587, 1614, 1609],
      [1573, 1584, 1575, 32, 1571, 1605, 1587, 1609]]"

definition classify_morning_evening :: "ustring \<Rightarrow> ustring list" where
  "classify_morning_evening t =
     (let has_morning = list_ex (\<lambda>kw. py_in kw t) MORNING_KEYWORDS;
          has_evening = list_ex (\<lambda>kw. py_in kw t) EVENING_KEYWORDS
      in if has_morning \<and> \<not> has_evening then [ascii ''morning'']
         else if has_evening \<and> \<not> has_morning then [ascii ''evening'']
         else [ascii ''morning'', ascii ''evening''])"

text \<open>\<open>make_id\<close>: the suffix is appended when it is given and not empty.\<close>

definition make_id :: "int \<Rightarrow> int \<Rightarrow> ustring option \<Rightarrow> ustring" where
  "make_id source_cat_id item_index suffix =
     (let base = ascii ''adhkar-'' @ str_int source_cat_id @ ascii ''-'' @ format_03d item_index
      in case suffix of
           None \<Rightarrow> base
         | Some sfx \<Rightarrow> if sfx \<noteq> [] then base @ ascii ''-'' @ sfx else base)"

text \<open>
  A raw item of the conversion source, \<open>{id, text, count}\<close>; \<open>count\<close> is read with \<open>get\<close>
  and may be missing. A source category is \<open>{id, category, array}\<close>.
\<close>

record raw_item =
  item_id :: int
  item_text :: ustring
  item_count :: "jval option"

record source_category =
  cat_id :: int
  cat_category :: ustring
  cat_array :: "raw_item list"

text \<open>The \<open>repeat\<close> dict of a record and the record that \<open>convert_item\<close> builds.\<close>

record repeat_dict =
  rep_min :: jval
  rep_max :: jval
  rep_note :: "ustring option"

record entry =
  entry_id :: ustring
  entry_category :: "ustring option"
  hisnCategory :: "ustring option"
  source :: ustring
  entry_title :: ustring
  entry_text :: ustring
  entry_reference :: ustring
  entry_repeat :: repeat_dict
  entry_orderIndex :: int
  entry_benefit :: "ustring option"
  entry_grading :: ustring
  entry_isOptional :: bool

definition convert_item :: "int \<Rightarrow> ustring \<Rightarrow> raw_item \<Rightarrow> int \<Rightarrow> ustring option \<Rightarrow>
    ustring option \<Rightarrow> ustring \<Rightarrow> entry" where
  "convert_item source_cat_id source_category_name item item_index category hisn_category src =
     \<lparr>entry_id = make_id source_cat_id item_index None,
      entry_category = category,
      hisnCategory = hisn_category,
      source = src,
      entry_title = source_category_name,
      entry_text = item_text item,
      entry_reference = [],
      entry_repeat = \<lparr>rep_min = get_or (JInt 1) (item_count item),
                        rep_max = get_or (JInt 1) (item_count item),
                        rep_note = None\<rparr>,
      entry_orderIndex = item_index + 1,
      entry_benefit = None,
      entry_grading = ascii ''sahih'',
      entry_isOptional = False\<rparr>"

text \<open>
  The split of source category 1. \<open>split_cls\<close> is the loop over the classifications of one
  item, \<open>split_items\<close> the loop over the items; both carry \<open>morning_index\<close> and
  \<open>evening_index\<close>. \<open>cls[0]\<close> is the first letter of the tag.
\<close>

definition title_morning :: ustring where
  "title_morning = [1571, 1584, 1603, 1575, 1585, 32, 1575, 1604, 1589, 1576, 1575, 1581]"

definition title_evening :: ustring where
  "title_evening = [1571, 1584, 1603, 1575, 1585, 32, 1575, 1604, 1605, 1587, 1575, 1569]"

fun split_cls :: "int \<Rightarrow> raw_item \<Rightarrow> ustring list \<Rightarrow> int \<Rightarrow> int \<Rightarrow> entry list \<times> int \<times> int" where
  "split_cls cid item [] morning_index evening_index = ([], morning_index, evening_index)"
| "split_cls cid item (cls # rest) morning_index evening_index =
     (let idx = (if cls = ascii ''morning'' then morning_index else evening_index);
          e = convert_item cid
                (if cls = ascii ''morning'' then title_morning else title_evening)
                item idx (Some cls) None (ascii ''daily'');
          e' = e\<lparr>entry_id := make_id cid (item_id item - 1) (Some (take 1 cls))\<rparr>;
          (more, mi, ei) =
            (if cls = ascii ''morning''
             then split_cls cid item rest (morning_index + 1) evening_index
             else split_cls cid item rest morning_index (evening_index + 1))
      in (e' # more, mi, ei))"

fun split_items :: "int \<Rightarrow> raw_item list \<Rightarrow> int \<Rightarrow> int \<Rightarrow> entry list" where
  "split_items cid [] morning_index evening_index = []"
| "split_items cid (item # items) morning_index evening_index =
     (case split_cls cid item (classify_morning_evening (item_text item))
             morning_index evening_index of
        (es, mi, ei) \<Rightarrow> es @ split_items cid items mi ei)"

text \<open>The loop \<open>for idx, item in enumerate(items)\<close> of the other categories.\<close>

fun convert_items :: "int \<Rightarrow> ustring \<Rightarrow> ustring \<times> ustring option \<times> ustring option \<Rightarrow>
    int \<Rightarrow> raw_item list \<Rightarrow> entry list" where
  "convert_items cid cname mapping idx [] = []"
| "convert_items cid cname (source_type, category, hisn_category) idx (item # items) =
     convert_item cid cname item idx category hisn_category source_type
       # convert_items cid cname (source_type, category, hisn_category) (idx + 1) items"

text \<open>The body of the loop over the source categories: the entries one category appends.
  A category whose id is not in the table is skipped with a warning.\<close>

definition convert_category :: "source_category \<Rightarrow> entry list" where
  "convert_category cat =
     (case CATEGORY_MAP (cat_id cat) of
        None \<Rightarrow> []
      | Some mapping \<Rightarrow>
          if cat_id cat = 1 then split_items (cat_id cat) (cat_array cat) 0 0
          else convert_items (cat_id cat) (cat_category cat) mapping 0 (cat_array cat))"

text \<open>\<open>main\<close> up to the list \<open>all_athkar\<close> that is written out.\<close>

definition main :: "source_category list \<Rightarrow> entry list" where
  "main source_data = concat (map convert_category source_data)"

section \<open>The synchronisation with the reference service (sync\_official\_data.py)\<close>

text \<open>
  \<open>clean_text\<close> of this script returns the empty string for an empty text before it does
  the same cleaning.
\<close>

definition sync_clean_text :: "ustring \<Rightarrow> ustring" where
  "sync_clean_text t = (if t = [] then [] else clean_text t)"

text \<open>
  An entry of the index document, read with \<open>cat['ID']\<close>, \<open>cat['TITLE']\<close>, \<open>cat['TEXT']\<close>;
  a record of the two output files; an entry of the list of library categories.
\<close>

record index_entry =
  index_ID :: jval
  index_TITLE :: ustring
  index_TEXT :: ustring

record dhikr_obj =
  dhikr_id :: ustring
  category :: ustring
  title :: ustring
  dhikr_text :: ustring
  reference :: ustring
  repeat :: repeat_dict
  orderIndex :: int
  benefit :: "ustring option"
  grading :: ustring
  isOptional :: bool

record hisn_category =
  hisn_id :: ustring
  hisn_name :: ustring
  hisn_icon :: ustring

text \<open>\<open>daily_mapping\<close>\<close>

definition daily_mapping :: "int \<rightharpoonup> ustring list" where
  "daily_mapping = map_of
     [(27, [ascii ''morning'', ascii ''evening'']),
      (28, [ascii ''sleep'']),
      (1, [ascii ''waking'']),
      (25, [ascii ''after_prayer''])]"

text \<open>The repeat count: \<open>try: int(item.get('REPEAT', 1))\<close>, and 1 on any exception.\<close>

definition rep_val_of :: "remote_item \<Rightarrow> int" where
  "rep_val_of item =
     (case py_int (get_or (JInt 1) (REPEAT item)) of
        Inl e \<Rightarrow> 1
      | Inr n \<Rightarrow> n)"

text \<open>The four markers of the split of remote category 27.\<close>

definition kw_sabah :: ustring where "kw_sabah = [1589, 1576, 1575, 1581]"
definition kw_asbah :: ustring where "kw_asbah = [1571, 1589, 1576, 1581]"
definition kw_masa :: ustring where "kw_masa = [1605, 1587, 1575]"
definition kw_ams :: ustring where "kw_ams = [1571, 1605, 1587]"

text \<open>
  The body of the loop over the items of one remote category: the records it appends to
  \<open>final_daily\<close> and to \<open>final_hisn_duas\<close>.
\<close>

definition sync_item :: "int \<Rightarrow> ustring \<Rightarrow> nat \<Rightarrow> nat \<Rightarrow> remote_item \<Rightarrow>
    dhikr_obj list \<times> dhikr_obj list" where
  "sync_item cid ctitle n_items idx item =
     (let did = ascii ''sync-'' @ str_int cid @ ascii ''-'' @ format_03d (int idx);
          txt = sync_clean_text (get_or [] (ARABIC_TEXT item));
          rep_val = rep_val_of item;
          obj = \<lparr>dhikr_id = did,
                 category = [],
                 title = (if n_items = 1 then ctitle
                          else ctitle @ ascii '' ('' @ str_int (int idx + 1) @ ascii '')''),
                 dhikr_text = txt,
                 reference = get_or [] (REFERENCE item),
                 repeat = \<lparr>rep_min = JInt rep_val, rep_max = JInt rep_val, rep_note = None\<rparr>,
                 orderIndex = int idx + 1,
                 benefit = None,
                 grading = ascii ''sahih'',
                 isOptional = False\<rparr>
      in case daily_mapping cid of
           Some target_cats \<Rightarrow>
             if cid = 27 then
               (if py_in kw_sabah txt \<or> py_in kw_asbah txt
                then ([obj\<lparr>category := ascii ''morning''\<rparr>], [])
                else if py_in kw_masa txt \<or> py_in kw_ams txt
                then ([obj\<lparr>category := ascii ''evening''\<rparr>], [])
                else ([obj\<lparr>category := ascii ''morning'', dhikr_id := did @ ascii ''-m''\<rparr>,
                       obj\<lparr>category := ascii ''evening'', dhikr_id := did @ ascii ''-e''\<rparr>], []))
             else ([obj\<lparr>category := hd target_cats\<rparr>], [])
         | None \<Rightarrow> ([], [obj\<lparr>category := ascii ''cat-'' @ str_int cid\<rparr>]))"

fun sync_items :: "int \<Rightarrow> ustring \<Rightarrow> nat \<Rightarrow> nat \<Rightarrow> remote_item list \<Rightarrow>
    dhikr_obj list \<times> dhikr_obj list" where
  "sync_items cid ctitle n_items idx [] = ([], [])"
| "sync_items cid ctitle n_items idx (item # items) =
     (case sync_item cid ctitle n_items idx item of
        (daily, duas) \<Rightarrow>
          (case sync_items cid ctitle n_items (idx + 1) items of
             (daily', duas') \<Rightarrow> (daily @ daily', duas @ duas')))"

text \<open>
  The loop over the index. \<open>int(cat['ID'])\<close> is outside any \<open>try\<close>. \<open>fetch\<close> gives the
  items behind a content URL, or \<open>None\<close> when nothing usable came back and the category is
  skipped. The state is \<open>(final_daily, final_hisn_duas, final_hisn_categories)\<close>.
\<close>

fun sync_categories :: "(ustring \<Rightarrow> remote_item list option) \<Rightarrow> index_entry list \<Rightarrow>
    dhikr_obj list \<times> dhikr_obj list \<times> hisn_category list \<Rightarrow>
    error + dhikr_obj list \<times> dhikr_obj list \<times> hisn_category list" where
  "sync_categories fetch [] st = Inr st"
| "sync_categories fetch (cat # cats) (final_daily, final_hisn_duas, final_hisn_categories) =
     (case py_int (index_ID cat) of
        Inl e \<Rightarrow> Inl e
      | Inr cid \<Rightarrow>
          (case fetch (index_TEXT cat) of
             None \<Rightarrow>
               sync_categories fetch cats (final_daily, final_hisn_duas, final_hisn_categories)
           | Some items \<Rightarrow>
               (let cats' =
                      (if daily_mapping cid = None
                       then final_hisn_categories @
                              [\<lparr>hisn_id = ascii ''hisn-cat-'' @ str_int cid,
                                hisn_name = index_TITLE cat,
                                hisn_icon = ascii ''leaf.fill''\<rparr>]
                       else final_hisn_categories)
                in case sync_items cid (index_TITLE cat) (length items) 0 items of
                     (daily, duas) \<Rightarrow>
                       sync_categories fetch cats
                         (final_daily @ daily, final_hisn_duas @ duas, cats'))))"

text \<open>\<open>run_sync\<close> up to the three lists that are written out; \<open>None\<close> when the index could
  not be fetched and the run stops without writing.\<close>

definition run_sync :: "index_entry list option \<Rightarrow> (ustring \<Rightarrow> remote_item list option) \<Rightarrow>
    error + (dhikr_obj list \<times> dhikr_obj list \<times> hisn_category list) option" where
  "run_sync index_data fetch =
     (case index_data of
        None \<Rightarrow> Inr None
      | Some categories \<Rightarrow>
          (case sync_categories fetch categories ([], [], []) of
             Inl e \<Rightarrow> Inl e
           | Inr st \<Rightarrow> Inr (Some st)))"

section \<open>Duplicate reconciliation (smart\_deduplicate.py)\<close>

definition essential_keywords :: "ustring list" where
  "essential_keywords =
     [[1570, 1610, 1577, 32, 1575, 1604, 1603, 1585, 1587, 1610],
      [1602, 1615, 1604, 1618, 32, 1607, 1615, 1608, 1614, 32, 1575, 1604, 1604, 1614, 1617,
       1607, 1615, 32, 1571, 1614, 1581, 1614, 1583, 1612],
      [1602, 1615, 1604, 1618, 32, 1571, 1614, 1593, 1615, 1608, 1584, 1615, 32, 1576, 1616,
       1585, 1614, 1576, 1616, 1617, 32, 1575, 1604, 1618, 1601, 1614, 1604, 1614, 1602, 1616],
      [1602, 1615, 1604, 1618, 32, 1571, 1614, 1593, 1615, 1608, 1584, 1615, 32, 1576, 1616,
       1585, 1614, 1576, 1616, 1617, 32, 1575, 1604, 1606, 1614, 1617, 1575, 1587, 1616],
      [1587, 1610, 1583, 32, 1575, 1604, 1575, 1587, 1578, 1594, 1601, 1575, 1585],
      [1571, 1614, 1589, 1618, 1576, 1614, 1581, 1618, 1606, 1614, 1575, 32, 1608, 1614, 1571,
       1614, 1589, 1618, 1576, 1614, 1581, 1614, 32, 1575, 1604, 1618, 1605, 1615, 1604, 1618,
       1603, 1615],
      [1571, 1614, 1605, 1618, 1587, 1614, 1610, 1618, 1606, 1614, 1575, 32, 1608, 1614, 1571,
       1614, 1605, 1618, 1587, 1614, 1609, 32, 1575, 1604, 1618, 1605, 1615, 1604, 1618, 1603,
       1615]]"

definition is_essential :: "dhikr_obj \<Rightarrow> bool" where
  "is_essential item =
     list_ex (\<lambda>keyword. py_in keyword (title item) \<or> py_in keyword (dhikr_text item))
       essential_keywords"

text \<open>
  \<open>text_groups\<close> is a dict, which keeps its keys in the order of their first insertion: an
  association list. \<open>add_item\<close> is one step of the grouping loop.
\<close>

fun add_item :: "dhikr_obj \<Rightarrow> (ustring \<times> dhikr_obj list) list \<Rightarrow> (ustring \<times> dhikr_obj list) list" where
  "add_item item [] = [(take 100 (dhikr_text item), [item])]"
| "add_item item ((text_key, items) # groups) =
     (if text_key = take 100 (dhikr_text item) then (text_key, items @ [item]) # groups
      else (text_key, items) # add_item item groups)"

definition text_groups :: "dhikr_obj list \<Rightarrow> (ustring \<times> dhikr_obj list) list" where
  "text_groups athkar = foldl (\<lambda>groups item. add_item item groups) [] athkar"

text \<open>What the processing loop appends for one group. A group is never empty.\<close>

fun keep_of_group :: "dhikr_obj list \<Rightarrow> dhikr_obj list" where
  "keep_of_group [] = []"
| "keep_of_group [item] = [item]"
| "keep_of_group (first # others) =
     (if is_essential first then first # others
      else (case find (\<lambda>i. category i = ascii ''morning'') (first # others) of
              Some morning_item \<Rightarrow> [morning_item]
            | None \<Rightarrow> [first]))"

text \<open>\<open>smart_deduplicate\<close> up to the list that is written back: the kept records, sorted
  by \<open>(category, orderIndex)\<close> with the stable sort of Python.\<close>

definition smart_deduplicate :: "dhikr_obj list \<Rightarrow> dhikr_obj list" where
  "smart_deduplicate athkar =
     sort_key (\<lambda>x. (category x, orderIndex x))
       (concat (map (\<lambda>(text_key, items). keep_of_group items) (text_groups athkar)))"

section \<open>The morning/evening split in the words of the specification\<close>

text \<open>
  The tags and identifiers of the records that one item of the split category gives in
  \<open>convert_adhkar.py\<close>: morning only for a morning marker alone, evening only for an evening
  marker alone, and both, morning first, for both markers or none.
\<close>

definition split_tags :: "raw_item \<Rightarrow> (ustring option \<times> ustring) list" where
  "split_tags item =
     (let has_morning = list_ex (\<lambda>kw. py_in kw (item_text item)) MORNING_KEYWORDS;
          has_evening = list_ex (\<lambda>kw. py_in kw (item_text item)) EVENING_KEYWORDS;
          m = (Some (ascii ''morning''), make_id 1 (item_id item - 1) None @ ascii ''-m'');
          e = (Some (ascii ''evening''), make_id 1 (item_id item - 1) None @ ascii ''-e'')
      in if has_morning \<and> \<not> has_evening then [m]
         else if has_evening \<and> \<not> has_morning then [e]
         else [m, e])"


section \<open>Sample records\<close>

text \<open>
  A record of \<open>daily_athkar.json\<close> with a given category, title, text and \<open>orderIndex\<close>; the
  other fields are as \<open>sync_official_data.py\<close> writes them. \<open>ayat_al_kursi\<close> is the first of the
  essential keywords.
\<close>

definition dhikr :: "ustring \<Rightarrow> ustring \<Rightarrow> ustring \<Rightarrow> int \<Rightarrow> dhikr_obj" where
  "dhikr cat ttl txt idx =
     \<lparr>dhikr_id = [], category = cat, title = ttl, dhikr_text = txt, reference = [],
      repeat = \<lparr>rep_min = JInt 1, rep_max = JInt 1, rep_note = None\<rparr>,
      orderIndex = idx, benefit = None, grading = ascii ''sahih'', isOptional = False\<rparr>"

definition ayat_al_kursi :: ustring where
  "ayat_al_kursi = [1570, 1610, 1577, 32, 1575, 1604, 1603, 1585, 1587, 1610]"


section \<open>The branches of the split category\<close>

text \<open>The records of the morning branch and of the evening branch, by their category.\<close>

definition tagged_morning :: "entry \<Rightarrow> bool" where
  "tagged_morning e \<longleftrightarrow> entry_category e = Some (ascii ''morning'')"

definition tagged_evening :: "entry \<Rightarrow> bool" where
  "tagged_evening e \<longleftrightarrow> entry_category e = Some (ascii ''evening'')"


section \<open>Runs without popular elements\<close>

text \<open>
  \<open>unpopular_run x m\<close> is the number of consecutive elements of \<open>x\<close> just before position \<open>m\<close>
  that are not popular in \<open>x\<close>: the length that \<open>find_longest_match\<close> records on the diagonal
  when it compares \<open>x\<close> with itself.
\<close>

fun unpopular_run :: "ustring \<Rightarrow> nat \<Rightarrow> nat" where
  "unpopular_run x 0 = 0"
| "unpopular_run x (Suc j) = (if popular x (x ! j) then 0 else unpopular_run x j + 1)"


section \<open>Texts that differ in whitespace and markers only\<close>

text \<open>
  Two texts differ only in whitespace runs or in occurrences of the marker U+06DD: the
  equivalence generated by deleting one marker, by lengthening a whitespace run by one
  whitespace code point, by replacing a whitespace code point with another one, and by deleting
  a whitespace code point at the start or at the end of the text.
\<close>

inductive same_text :: "ustring \<Rightarrow> ustring \<Rightarrow> bool" where
  same_refl: "same_text t t"
| same_sym: "same_text s t \<Longrightarrow> same_text t s"
| same_trans: "same_text s t \<Longrightarrow> same_text t u \<Longrightarrow> same_text s u"
| same_marker: "same_text (u @ [1757] @ v) (u @ v)"
| same_run: "is_space c \<Longrightarrow> is_space d \<Longrightarrow> same_text (u @ [c] @ v) (u @ [c, d] @ v)"
| same_kind: "is_space c \<Longrightarrow> is_space d \<Longrightarrow> same_text (u @ [c] @ v) (u @ [d] @ v)"
| same_lead: "is_space c \<Longrightarrow> same_text (c # u) u"
| same_trail: "is_space c \<Longrightarrow> same_text (u @ [c]) u"



section \<open>Properties of the matcher\<close>

subsection \<open>The scan\<close>

lemma scan_local_Cons:
  "scan_local r_text (l # rest) best_ratio best_match =
     (if 85 / 100 < score r_text l then Found l
      else if best_ratio < score r_text l then scan_local r_text rest (score r_text l) (Some l)
      else scan_local r_text rest best_ratio best_match)"
  by (simp add: score_def Let_def)

lemma scan_local_found:
  "find (\<lambda>l. 85 / 100 < score r_text l) ls = Some l \<Longrightarrow>
     scan_local r_text ls best_ratio best_match = Found l"
proof (induction ls arbitrary: best_ratio best_match)
  case Nil
  then show ?case by simp
next
  case (Cons x xs)
  then show ?case by (auto simp: scan_local_Cons simp del: scan_local.simps split: if_splits)
qed

lemma scan_local_not_found:
  "find (\<lambda>l. 85 / 100 < score r_text l) ls = None \<Longrightarrow>
     scan_local r_text ls best_ratio best_match =
       Not_found (Max (insert best_ratio (set (map (score r_text) ls))))
         (if \<exists>l\<in>set ls. best_ratio < score r_text l
          then find (\<lambda>l. score r_text l = Max (insert best_ratio (set (map (score r_text) ls)))) ls
          else best_match)"
proof (induction ls arbitrary: best_ratio best_match)
  case Nil
  then show ?case by simp
next
  case (Cons x xs)
  let ?s = "score r_text x"
  let ?S = "set (map (score r_text) xs)"
  from Cons.prems have nf: "find (\<lambda>l. 85 / 100 < score r_text l) xs = None" and le: "\<not> 85 / 100 < ?s"
    by (auto split: if_splits)
  have fin: "finite ?S" by simp
  show ?case
  proof (cases "best_ratio < ?s")
    case True
    have step: "scan_local r_text (x # xs) best_ratio best_match = scan_local r_text xs ?s (Some x)"
      using le True by (simp add: scan_local_Cons del: scan_local.simps)
    have M: "Max (insert best_ratio (set (map (score r_text) (x # xs)))) = Max (insert ?s ?S)"
    proof -
      have "Max (insert best_ratio (insert ?s ?S)) = max best_ratio (Max (insert ?s ?S))"
        using fin by (simp add: Max_insert)
      also have "\<dots> = Max (insert ?s ?S)"
      proof -
        have "?s \<le> Max (insert ?s ?S)" using fin by simp
        with True have "best_ratio \<le> Max (insert ?s ?S)" by linarith
        then show ?thesis by (simp add: max_def)
      qed
      finally show ?thesis by simp
    qed
    show ?thesis
    proof (cases "\<exists>l\<in>set xs. ?s < score r_text l")
      case ex: True
      then obtain y where y: "y \<in> set xs" "?s < score r_text y" by blast
      have "score r_text y \<le> Max (insert ?s ?S)"
        by (rule Max_ge) (use y fin in auto)
      with y have ne: "?s \<noteq> Max (insert ?s ?S)" by linarith
      show ?thesis
        unfolding step Cons.IH[OF nf] M using ex True ne by auto
    next
      case nex: False
      then have "\<forall>v \<in> ?S. v \<le> ?s" by auto
      then have eq: "Max (insert ?s ?S) = ?s"
        using fin by (intro Max_eqI) auto
      show ?thesis
        unfolding step Cons.IH[OF nf] M using nex True eq by auto
    qed
  next
    case False
    have step: "scan_local r_text (x # xs) best_ratio best_match = scan_local r_text xs best_ratio best_match"
      using le False by (simp add: scan_local_Cons del: scan_local.simps)
    have M: "Max (insert best_ratio (set (map (score r_text) (x # xs)))) = Max (insert best_ratio ?S)"
    proof -
      have "insert best_ratio (set (map (score r_text) (x # xs))) = insert ?s (insert best_ratio ?S)"
        by auto
      moreover have "Max (insert ?s (insert best_ratio ?S)) = max ?s (Max (insert best_ratio ?S))"
        using fin by (simp add: Max_insert)
      moreover have "best_ratio \<le> Max (insert best_ratio ?S)" using fin by simp
      then have "?s \<le> Max (insert best_ratio ?S)" using False by linarith
      ultimately show ?thesis by (simp add: max_def)
    qed
    have exi: "(\<exists>l\<in>set (x # xs). best_ratio < score r_text l) = (\<exists>l\<in>set xs. best_ratio < score r_text l)"
      using False by auto
    show ?thesis
    proof (cases "\<exists>l\<in>set xs. best_ratio < score r_text l")
      case ex: True
      then obtain y where y: "y \<in> set xs" "best_ratio < score r_text y" by blast
      have "score r_text y \<le> Max (insert best_ratio ?S)"
        by (rule Max_ge) (use y fin in auto)
      with y False have ne: "?s \<noteq> Max (insert best_ratio ?S)" by linarith
      show ?thesis
        unfolding step Cons.IH[OF nf] M exi using ex ne by auto
    next
      case nex: False
      show ?thesis
        unfolding step Cons.IH[OF nf] M exi using nex by auto
    qed
  qed
qed

lemma Max_insert_zero:
  fixes S :: "rat set"
  assumes "finite S" "S \<noteq> {}"
  shows "(1 / 2 < Max (insert 0 S)) = (1 / 2 < Max S)"
    and "1 / 2 < Max S \<Longrightarrow> Max (insert 0 S) = Max S"
  using assms by (auto simp: Max_insert max_def)

lemma scan_local_candidate:
  "scan_local r_text ls best_ratio best_match = Not_found br bm \<Longrightarrow>
     (best_match = None \<longrightarrow> best_ratio \<le> 0) \<Longrightarrow> bm = None \<longrightarrow> br \<le> 0"
proof (induction ls arbitrary: best_ratio best_match)
  case Nil
  then show ?case by simp
next
  case (Cons x xs)
  show ?case
  proof (cases "85 / 100 < score r_text x")
    case True
    with Cons.prems(1) show ?thesis by (simp add: scan_local_Cons del: scan_local.simps)
  next
    case False
    show ?thesis
    proof (cases "best_ratio < score r_text x")
      case True
      with False Cons.prems(1)
      have "scan_local r_text xs (score r_text x) (Some x) = Not_found br bm"
        by (simp add: scan_local_Cons del: scan_local.simps)
      from Cons.IH[OF this] show ?thesis by simp
    next
      case nb: False
      with False Cons.prems(1)
      have "scan_local r_text xs best_ratio best_match = Not_found br bm"
        by (simp add: scan_local_Cons del: scan_local.simps)
      from Cons.IH[OF this Cons.prems(2)] show ?thesis .
    qed
  qed
qed

lemma py_int_no_attribute_error: "py_int v \<noteq> Inl AttributeError"
  by (cases v rule: py_int.cases) (auto split: option.splits)

text \<open>
  Claim C1. For every remote item the matcher scans the local collection in its order, with
  the ratio of the first 200 code points of the two cleaned texts. If some local candidate
  scores above 0.85, the first such candidate is the match and the scan stops there;
  otherwise, if the best candidate of the whole scan scores above 0.50, a Potential
  Mismatch is reported with that candidate and its score; otherwise the item is Missing.
  What \<open>compare_item\<close> appends to the report is what the policy of the specification
  prescribes, for every input.
\<close>

theorem decision_policy:
  "compare_item rname local_all r_item =
     report_of rname r_item (policy (clean_text (get_or [] (ARABIC_TEXT r_item))) local_all)"
proof -
  let ?r = "clean_text (get_or [] (ARABIC_TEXT r_item))"
  let ?S = "set (map (score ?r) local_all)"
  show ?thesis
  proof (cases "find (\<lambda>l. 85 / 100 < score ?r l) local_all")
    case (Some l)
    then show ?thesis
      by (simp add: compare_item_def report_of_def policy_def scan_local_found Let_def
               split: sum.splits)
  next
    case None
    note nf = scan_local_not_found[OF None, of 0 None]
    show ?thesis
    proof (cases "local_all = []")
      case True
      then show ?thesis
        by (simp add: compare_item_def report_of_def policy_def Let_def)
    next
      case ne: False
      then have S: "finite ?S" "?S \<noteq> {}" by auto
      show ?thesis
      proof (cases "1 / 2 < Max ?S")
        case big: True
        have "Max ?S \<in> ?S" using S by (rule Max_in)
        then obtain m where m: "m \<in> set local_all" "score ?r m = Max ?S" by auto
        then have ex: "\<exists>l\<in>set local_all. 0 < score ?r l" using big by force
        from m obtain m' where f: "find (\<lambda>l. score ?r l = Max ?S) local_all = Some m'"
          by (cases "find (\<lambda>l. score ?r l = Max ?S) local_all") (auto simp: find_None_iff)
        then have sm': "score ?r m' = Max ?S" by (auto simp: find_Some_iff)
        show ?thesis
          using None ne big ex f sm' Max_insert_zero[OF S]
          by (simp add: compare_item_def report_of_def policy_def Let_def nf)
      next
        case small: False
        then show ?thesis
          using None ne Max_insert_zero(1)[OF S]
          by (simp add: compare_item_def report_of_def policy_def Let_def nf)
      qed
    qed
  qed
qed

text \<open>
  Claim C10. The Potential Mismatch branch is safe: whenever the best ratio of a scan
  exceeds 0.50, a best candidate has been recorded, so the branch never reads the text of a
  missing candidate (no \<open>AttributeError\<close>); and with an empty local collection every remote
  item is reported Missing.
\<close>

theorem potential_mismatch_safe:
  "(\<forall>best_ratio best_match.
       scan_local r_text local_all 0 None = Not_found best_ratio best_match \<longrightarrow>
       1 / 2 < best_ratio \<longrightarrow> best_match \<noteq> None) \<and>
   compare_item rname local_all r_item \<noteq> Inl AttributeError \<and>
   compare_item rname [] r_item =
     Inr [Missing rname (get_or [] (TITLE r_item))
            (take 200 (clean_text (get_or [] (ARABIC_TEXT r_item))))]"
proof (intro conjI allI impI)
  fix best_ratio best_match
  assume "scan_local r_text local_all 0 None = Not_found best_ratio best_match"
    and "1 / 2 < best_ratio"
  with scan_local_candidate[of r_text local_all 0 None best_ratio best_match]
  show "best_match \<noteq> None" by auto
next
  let ?r = "clean_text (get_or [] (ARABIC_TEXT r_item))"
  show "compare_item rname local_all r_item \<noteq> Inl AttributeError"
  proof (cases "scan_local ?r local_all 0 None")
    case (Found l)
    then show ?thesis
      using py_int_no_attribute_error
      by (auto simp: compare_item_def Let_def r_rep_of_def split: option.splits if_splits sum.splits)
  next
    case (Not_found br bm)
    with scan_local_candidate[of ?r local_all 0 None br bm]
    show ?thesis
      by (auto simp: compare_item_def Let_def split: option.splits)
  qed
next
  show "compare_item rname [] r_item =
     Inr [Missing rname (get_or [] (TITLE r_item))
            (take 200 (clean_text (get_or [] (ARABIC_TEXT r_item))))]"
    by (simp add: compare_item_def Let_def)
qed

text \<open>A scan that ends with the best ratio 4/5, above 0.50 and not above 0.85.\<close>

lemma clean_text_abxde: "clean_text [97, 98, 120, 100, 101] = [97, 98, 120, 100, 101]"
  by (simp add: clean_text_def py_strip_def is_space_def)

lemma similar_abcde_abxde: "similar [97, 98, 99, 100, 101] [97, 98, 120, 100, 101] = 4 / 5"
  by code_simp

theorem potential_mismatch_safe_witness:
  "scan_local [97, 98, 99, 100, 101]
     [\<lparr>l_text = Some [97, 98, 120, 100, 101], l_repeat = None\<rparr>] 0 None =
     Not_found (4 / 5) (Some \<lparr>l_text = Some [97, 98, 120, 100, 101], l_repeat = None\<rparr>) \<and>
   (1 / 2 :: rat) < 4 / 5 \<and>
   Some \<lparr>l_text = Some [97, 98, 120, 100, 101], l_repeat = None\<rparr> \<noteq> None"
proof -
  have found: "scan_local [97, 98, 99, 100, 101]
     [\<lparr>l_text = Some [97, 98, 120, 100, 101], l_repeat = None\<rparr>] 0 None =
     Not_found (4 / 5) (Some \<lparr>l_text = Some [97, 98, 120, 100, 101], l_repeat = None\<rparr>)"
    by (simp add: get_or_def clean_text_abxde similar_abcde_abxde)
  have above: "(1 / 2 :: rat) < 4 / 5" by simp
  have "Some \<lparr>l_text = Some [97, 98, 120, 100, 101], l_repeat = None\<rparr> \<noteq> None"
    using potential_mismatch_safe[THEN conjunct1, rule_format, OF found above] .
  with found above show ?thesis by blast
qed


section \<open>Properties of the reclassifier and of the synchronisation\<close>

subsection \<open>The morning/evening split\<close>

lemma split_cls_tags:
  "map (\<lambda>e. (entry_category e, entry_id e)) (fst (split_cls cid item clss mi ei)) =
     map (\<lambda>cls. (Some cls, make_id cid (item_id item - 1) (Some (take 1 cls)))) clss"
proof (induction clss arbitrary: mi ei)
  case Nil
  then show ?case by simp
next
  case (Cons cls rest)
  show ?case
  proof (cases "cls = ascii ''morning''")
    case True
    obtain more mi' ei' where r: "split_cls cid item rest (mi + 1) ei = (more, mi', ei')"
      by (metis prod_cases3)
    from Cons.IH[of "mi + 1" ei] r
    have "map (\<lambda>e. (entry_category e, entry_id e)) more =
       map (\<lambda>cls. (Some cls, make_id cid (item_id item - 1) (Some (take 1 cls)))) rest"
      by simp
    then show ?thesis using True r by (simp add: Let_def convert_item_def)
  next
    case False
    obtain more mi' ei' where r: "split_cls cid item rest mi (ei + 1) = (more, mi', ei')"
      by (metis prod_cases3)
    from Cons.IH[of mi "ei + 1"] r
    have "map (\<lambda>e. (entry_category e, entry_id e)) more =
       map (\<lambda>cls. (Some cls, make_id cid (item_id item - 1) (Some (take 1 cls)))) rest"
      by simp
    then show ?thesis using False r by (simp add: Let_def convert_item_def)
  qed
qed

lemma split_items_tags:
  "map (\<lambda>e. (entry_category e, entry_id e)) (split_items cid items mi ei) =
     concat (map (\<lambda>item. map (\<lambda>cls. (Some cls, make_id cid (item_id item - 1) (Some (take 1 cls))))
                            (classify_morning_evening (item_text item))) items)"
proof (induction items arbitrary: mi ei)
  case Nil
  then show ?case by simp
next
  case (Cons item items)
  obtain es mi' ei' where s: "split_cls cid item (classify_morning_evening (item_text item)) mi ei = (es, mi', ei')"
    by (metis prod_cases3)
  have "map (\<lambda>e. (entry_category e, entry_id e)) es =
     map (\<lambda>cls. (Some cls, make_id cid (item_id item - 1) (Some (take 1 cls))))
       (classify_morning_evening (item_text item))"
    using split_cls_tags[of cid item "classify_morning_evening (item_text item)" mi ei] s by simp
  then show ?case using s Cons.IH[of mi' ei'] by simp
qed

lemma CATEGORY_MAP_1: "CATEGORY_MAP 1 = Some (ascii ''daily'', None, None)"
  by (simp add: CATEGORY_MAP_def)

lemma take_1_tags:
  "take (Suc 0) (ascii ''morning'') = ascii ''m''"
  "take (Suc 0) (ascii ''evening'') = ascii ''e''"
  by (simp_all add: ascii_def)

lemma make_id_suffix:
  "make_id cid i (Some (ascii ''m'')) = make_id cid i None @ ascii ''-m''"
  "make_id cid i (Some (ascii ''e'')) = make_id cid i None @ ascii ''-e''"
  by (simp_all add: make_id_def Let_def ascii_def)

lemma daily_mapping_27: "daily_mapping 27 = Some [ascii ''morning'', ascii ''evening'']"
  by (simp add: daily_mapping_def)

text \<open>
  In \<open>convert_adhkar.py\<close> the split is the one of the specification: the records of source
  category 1 are, item by item and in order, those of \<open>split_tags\<close>.
\<close>

lemma convert_category_split:
  "map (\<lambda>e. (entry_category e, entry_id e)) (convert_category (cat\<lparr>cat_id := 1\<rparr>)) =
     concat (map split_tags (cat_array cat))"
proof -
  have "map (\<lambda>cls. (Some cls, make_id 1 (item_id it - 1) (Some (take 1 cls))))
          (classify_morning_evening (item_text it)) = split_tags it" for it
    by (simp add: classify_morning_evening_def split_tags_def Let_def take_1_tags make_id_suffix)
  then show ?thesis
    by (simp add: convert_category_def CATEGORY_MAP_1 split_items_tags)
qed

text \<open>
  Claim C2 does not hold of \<open>sync_official_data.py\<close>. The text \<open>[1589, 1576, 1575, 1581, 32,
  1605, 1587, 1575]\<close> has the morning marker \<open>kw_sabah\<close> and the evening marker \<open>kw_masa\<close> of that
  script. The item with this text under remote category 27 should give two records, one tagged
  morning and one tagged evening, with identifiers suffixed \<open>-m\<close> and \<open>-e\<close>. The script tests the
  morning markers first and the evening markers in an \<open>elif\<close>, so the item gives one record
  only, \<open>sync-27-000\<close>, tagged morning, and no evening record.
\<close>

theorem sync_both_markers_one_record:
  "py_in kw_sabah [1589, 1576, 1575, 1581, 32, 1605, 1587, 1575] \<and>
   py_in kw_masa [1589, 1576, 1575, 1581, 32, 1605, 1587, 1575] \<and>
   map (\<lambda>d. (category d, dhikr_id d))
     (fst (sync_item 27 [] 1 0
        \<lparr>ARABIC_TEXT = Some [1589, 1576, 1575, 1581, 32, 1605, 1587, 1575],
          TITLE = None, REPEAT = None, REFERENCE = None\<rparr>)) =
     [(ascii ''morning'', ascii ''sync-27-000'')]"
proof -
  have c: "sync_clean_text [1589, 1576, 1575, 1581, 32, 1605, 1587, 1575] =
      [1589, 1576, 1575, 1581, 32, 1605, 1587, 1575]"
    by (simp add: sync_clean_text_def clean_text_def py_strip_def is_space_def)
  have m: "py_in kw_sabah [1589, 1576, 1575, 1581, 32, 1605, 1587, 1575]"
    by (simp add: kw_sabah_def)
  have e: "py_in kw_masa [1589, 1576, 1575, 1581, 32, 1605, 1587, 1575]"
    by (simp add: kw_masa_def)
  have s: "str_int 27 = ascii ''27''" by code_simp
  have f: "format_03d 0 = ascii ''000''" by code_simp
  show ?thesis using m e
    by (simp add: sync_item_def Let_def daily_mapping_27 get_or_def c s f ascii_def)
qed


section \<open>Properties of the repeat counts\<close>

lemma clean_text_x: "clean_text [120] = [120]"
  by (simp add: clean_text_def py_strip_def is_space_def)

lemma similar_x_x: "similar [120] [120] = 1"
  by code_simp

lemma int_of_str_abc: "int_of_str (ascii ''abc'') = None"
  by (simp add: int_of_str_def ascii_def int_space_def is_space_def digits_value_def
      decimal_value_def nd_zeros_def Let_def)

text \<open>
  Claim C4 does not hold of \<open>compare_api.py\<close>. The remote item with the text \<open>x\<close> and the
  \<open>REPEAT\<close> value \<open>abc\<close> matches the local item with the same text with ratio 1, and the repeat
  count is then read with \<open>int(r_item.get('REPEAT', 1))\<close> outside any \<open>try\<close>: the run ends with
  \<open>ValueError\<close> instead of going on with the count 1. \<open>sync_official_data.py\<close> reads the same
  field inside \<open>try\<close> and does get 1. \<open>convert_adhkar.py\<close> does not parse the \<open>count\<close> of an item:
  it copies \<open>abc\<close> into \<open>repeat.min\<close> and \<open>repeat.max\<close>.
\<close>

theorem malformed_repeat_raises:
  "run_comparison
     (\<lambda>rid. if rid = 27
        then Some [\<lparr>ARABIC_TEXT = Some [120], TITLE = None,
                     REPEAT = Some (JStr (ascii ''abc'')), REFERENCE = None\<rparr>]
        else None)
     [\<lparr>l_text = Some [120], l_repeat = None\<rparr>] [] = Inl ValueError \<and>
   rep_val_of \<lparr>ARABIC_TEXT = Some [120], TITLE = None,
                REPEAT = Some (JStr (ascii ''abc'')), REFERENCE = None\<rparr> = 1 \<and>
   entry_repeat (convert_item cid cname
       \<lparr>item_id = 1, item_text = [120], item_count = Some (JStr (ascii ''abc''))\<rparr>
       idx cat hisn src) =
     \<lparr>rep_min = JStr (ascii ''abc''), rep_max = JStr (ascii ''abc''), rep_note = None\<rparr>"
proof -
  have t: "truthy (JStr (ascii ''abc''))" by (simp add: ascii_def)
  have c: "compare_item rname [\<lparr>l_text = Some [120], l_repeat = None\<rparr>]
        \<lparr>ARABIC_TEXT = Some [120], TITLE = None,
          REPEAT = Some (JStr (ascii ''abc'')), REFERENCE = None\<rparr> = Inl ValueError" for rname
    using t
    by (simp add: compare_item_def get_or_def clean_text_x similar_x_x Let_def r_rep_of_def
        int_of_str_abc)
  show ?thesis
    by (simp add: run_comparison_def mappings_def c rep_val_of_def get_or_def int_of_str_abc
        convert_item_def)
qed


section \<open>Properties of the reclassifier\<close>

subsection \<open>One record for every item\<close>

lemma convert_items_enumerate:
  "convert_items cid cname (s, c, h) k items =
     map (\<lambda>(i, item). convert_item cid cname item (k + int i) c h s) (enumerate 0 items)"
proof (induction items arbitrary: k)
  case Nil
  then show ?case by simp
next
  case (Cons item items)
  have "map (\<lambda>(i, item). convert_item cid cname item (k + int i) c h s) (enumerate (Suc 0) items) =
        map (\<lambda>(i, item). convert_item cid cname item (k + 1 + int i) c h s) (enumerate 0 items)"
    by (auto simp add: enumerate_eq_zip map_zip_map2[symmetric] map_Suc_upt[symmetric] zip_map1 add.assoc simp del: upt_Suc)
  then show ?case using Cons.IH[of "k + 1"] by simp
qed

lemma split_cls_fields:
  "map (\<lambda>e. (source e, entry_category e, hisnCategory e, entry_repeat e, entry_text e))
       (fst (split_cls cid item clss mi ei)) =
     map (\<lambda>cls. (ascii ''daily'', Some cls, None,
        \<lparr>rep_min = get_or (JInt 1) (item_count item),
          rep_max = get_or (JInt 1) (item_count item), rep_note = None\<rparr>,
        item_text item)) clss"
proof (induction clss arbitrary: mi ei)
  case Nil
  then show ?case by simp
next
  case (Cons cls rest)
  show ?case
  proof (cases "cls = ascii ''morning''")
    case True
    obtain more mi' ei' where r: "split_cls cid item rest (mi + 1) ei = (more, mi', ei')"
      by (metis prod_cases3)
    from Cons.IH[of "mi + 1" ei] r show ?thesis using True
      by (simp add: Let_def convert_item_def)
  next
    case False
    obtain more mi' ei' where r: "split_cls cid item rest mi (ei + 1) = (more, mi', ei')"
      by (metis prod_cases3)
    from Cons.IH[of mi "ei + 1"] r show ?thesis using False
      by (simp add: Let_def convert_item_def)
  qed
qed

lemma split_items_fields:
  "map (\<lambda>e. (source e, entry_category e, hisnCategory e, entry_repeat e, entry_text e))
       (split_items cid items mi ei) =
     concat (map (\<lambda>item. map (\<lambda>cls. (ascii ''daily'', Some cls, None,
        \<lparr>rep_min = get_or (JInt 1) (item_count item),
          rep_max = get_or (JInt 1) (item_count item), rep_note = None\<rparr>,
        item_text item)) (classify_morning_evening (item_text item))) items)"
proof (induction items arbitrary: mi ei)
  case Nil
  then show ?case by simp
next
  case (Cons item items)
  obtain es mi' ei' where s: "split_cls cid item (classify_morning_evening (item_text item)) mi ei = (es, mi', ei')"
    by (metis prod_cases3)
  show ?case
    using split_cls_fields[of cid item "classify_morning_evening (item_text item)" mi ei] s
      Cons.IH[of mi' ei'] by simp
qed

lemma CATEGORY_MAP_5:
  "CATEGORY_MAP 5 = Some (ascii ''hisn'', Some (ascii ''hisn''), Some (ascii ''home''))"
  by (simp add: CATEGORY_MAP_def)

lemma convert_category_mapped:
  assumes "CATEGORY_MAP (cat_id cat) = Some (src, c, h)" and "cat_id cat \<noteq> 1"
  shows "convert_category cat =
     map (\<lambda>(i, item). convert_item (cat_id cat) (cat_category cat) item (int i) c h src)
       (enumerate 0 (cat_array cat))"
  using assms by (simp add: convert_category_def convert_items_enumerate)

text \<open>
  Claim C6. For a source category whose id is a key of \<open>CATEGORY_MAP\<close> other than the split
  id 1, the records are, item by item and in order, one for every raw item: source, category and
  \<open>hisnCategory\<close> are those of the mapping entry, \<open>repeat.min\<close> and \<open>repeat.max\<close> are the \<open>count\<close> of
  the item, or 1 when it has none, and \<open>orderIndex\<close> is the position of the item counted from 1.
  Under the split id every item gives one record or two, one for each of its morning and
  evening tags, each with the source and the \<open>hisnCategory\<close> of the mapping entry of id 1 and
  the repeat counts of the item; the category of the record is the tag, the mapping entry
  having none. The entry of id 5 is \<open>("hisn", "hisn", "home")\<close>, and a source
  category of id 5 with three raw items gives three records of category \<open>hisn\<close> and
  \<open>hisnCategory\<close> \<open>home\<close> with \<open>orderIndex\<close> 1, 2, 3.
\<close>

theorem reclassifier_total:
  "(CATEGORY_MAP (cat_id cat) = Some (src, c, h) \<and> cat_id cat \<noteq> 1 \<longrightarrow>
      map (\<lambda>e. (source e, entry_category e, hisnCategory e, entry_repeat e, entry_orderIndex e,
                 entry_text e)) (convert_category cat) =
      map (\<lambda>(i, item). (src, c, h,
             \<lparr>rep_min = get_or (JInt 1) (item_count item),
               rep_max = get_or (JInt 1) (item_count item), rep_note = None\<rparr>,
             int i + 1, item_text item)) (enumerate 0 (cat_array cat))) \<and>
   CATEGORY_MAP 1 = Some (ascii ''daily'', None, None) \<and>
   map (\<lambda>e. (source e, entry_category e, hisnCategory e, entry_repeat e, entry_text e))
       (convert_category (cat\<lparr>cat_id := 1\<rparr>)) =
     concat (map (\<lambda>item. map (\<lambda>cls. (ascii ''daily'', Some cls, None,
        \<lparr>rep_min = get_or (JInt 1) (item_count item),
          rep_max = get_or (JInt 1) (item_count item), rep_note = None\<rparr>,
        item_text item)) (classify_morning_evening (item_text item))) (cat_array cat)) \<and>
   (length (classify_morning_evening t) = 1 \<or> length (classify_morning_evening t) = 2) \<and>
   CATEGORY_MAP 5 = Some (ascii ''hisn'', Some (ascii ''hisn''), Some (ascii ''home'')) \<and>
   map (\<lambda>e. (entry_category e, hisnCategory e, entry_orderIndex e))
       (convert_category \<lparr>cat_id = 5, cat_category = name, cat_array = [item1, item2, item3]\<rparr>) =
     [(Some (ascii ''hisn''), Some (ascii ''home''), 1),
      (Some (ascii ''hisn''), Some (ascii ''home''), 2),
      (Some (ascii ''hisn''), Some (ascii ''home''), 3)]"
proof (intro conjI impI)
  assume a: "CATEGORY_MAP (cat_id cat) = Some (src, c, h) \<and> cat_id cat \<noteq> 1"
  have "convert_category cat =
     map (\<lambda>(i, item). convert_item (cat_id cat) (cat_category cat) item (int i) c h src)
       (enumerate 0 (cat_array cat))"
    using a convert_category_mapped by blast
  then show "map (\<lambda>e. (source e, entry_category e, hisnCategory e, entry_repeat e, entry_orderIndex e,
                 entry_text e)) (convert_category cat) =
      map (\<lambda>(i, item). (src, c, h,
             \<lparr>rep_min = get_or (JInt 1) (item_count item),
               rep_max = get_or (JInt 1) (item_count item), rep_note = None\<rparr>,
             int i + 1, item_text item)) (enumerate 0 (cat_array cat))"
    by (simp add: convert_item_def case_prod_unfold comp_def)
next
  show "CATEGORY_MAP 1 = Some (ascii ''daily'', None, None)" by (rule CATEGORY_MAP_1)
next
  show "map (\<lambda>e. (source e, entry_category e, hisnCategory e, entry_repeat e, entry_text e))
       (convert_category (cat\<lparr>cat_id := 1\<rparr>)) =
     concat (map (\<lambda>item. map (\<lambda>cls. (ascii ''daily'', Some cls, None,
        \<lparr>rep_min = get_or (JInt 1) (item_count item),
          rep_max = get_or (JInt 1) (item_count item), rep_note = None\<rparr>,
        item_text item)) (classify_morning_evening (item_text item))) (cat_array cat))"
    by (simp add: convert_category_def CATEGORY_MAP_1 split_items_fields)
next
  show "length (classify_morning_evening t) = 1 \<or> length (classify_morning_evening t) = 2"
    by (simp add: classify_morning_evening_def Let_def)
next
  show "CATEGORY_MAP 5 = Some (ascii ''hisn'', Some (ascii ''hisn''), Some (ascii ''home''))"
    by (rule CATEGORY_MAP_5)
next
  show "map (\<lambda>e. (entry_category e, hisnCategory e, entry_orderIndex e))
       (convert_category \<lparr>cat_id = 5, cat_category = name, cat_array = [item1, item2, item3]\<rparr>) =
     [(Some (ascii ''hisn''), Some (ascii ''home''), 1),
      (Some (ascii ''hisn''), Some (ascii ''home''), 2),
      (Some (ascii ''hisn''), Some (ascii ''home''), 3)]"
    by (simp add: convert_category_def CATEGORY_MAP_5 convert_item_def)
qed

text \<open>The mapping entry of id 5 applied to two items, one with a count and one without.\<close>

theorem reclassifier_total_witness:
  "CATEGORY_MAP 5 = Some (ascii ''hisn'', Some (ascii ''hisn''), Some (ascii ''home'')) \<and>
   map (\<lambda>e. (source e, entry_category e, hisnCategory e, entry_repeat e, entry_orderIndex e,
              entry_text e))
     (convert_category \<lparr>cat_id = 5, cat_category = [],
        cat_array = [\<lparr>item_id = 1, item_text = [97], item_count = Some (JInt 3)\<rparr>,
                     \<lparr>item_id = 2, item_text = [98], item_count = None\<rparr>]\<rparr>) =
   [(ascii ''hisn'', Some (ascii ''hisn''), Some (ascii ''home''),
     \<lparr>rep_min = JInt 3, rep_max = JInt 3, rep_note = None\<rparr>, 1, [97]),
    (ascii ''hisn'', Some (ascii ''hisn''), Some (ascii ''home''),
     \<lparr>rep_min = JInt 1, rep_max = JInt 1, rep_note = None\<rparr>, 2, [98])]"
  using reclassifier_total[of "\<lparr>cat_id = 5, cat_category = [],
        cat_array = [\<lparr>item_id = 1, item_text = [97], item_count = Some (JInt 3)\<rparr>,
                     \<lparr>item_id = 2, item_text = [98], item_count = None\<rparr>]\<rparr>"
      "ascii ''hisn''" "Some (ascii ''hisn'')" "Some (ascii ''home'')"]
  by (simp add: get_or_def enumerate_eq_zip)


section \<open>Properties of the duplicate reconciliation\<close>

lemma essential_title: "is_essential (dhikr cat ayat_al_kursi [120] idx)"
  by (simp add: is_essential_def essential_keywords_def dhikr_def ayat_al_kursi_def)

lemma not_essential_plain: "\<not> is_essential (dhikr cat [] [120] idx)"
  by (simp add: is_essential_def essential_keywords_def dhikr_def)

lemma dhikr_sel:
  "category (dhikr cat ttl txt idx) = cat" "orderIndex (dhikr cat ttl txt idx) = idx"
  "dhikr_text (dhikr cat ttl txt idx) = txt" "title (dhikr cat ttl txt idx) = ttl"
  by (simp_all add: dhikr_def)

lemma tag_order:
  "ascii ''evening'' < ascii ''morning''" "ascii ''evening'' < ascii ''sleep''"
  "ascii ''morning'' < ascii ''sleep''"
  by (simp_all add: ascii_def)

lemma tag_neq:
  "ascii ''evening'' \<noteq> ascii ''morning''" "ascii ''sleep'' \<noteq> ascii ''morning''"
  by (simp_all add: ascii_def)

text \<open>
  Claim C3 does not hold of \<open>smart_deduplicate.py\<close>. The two records below have the same text
  \<open>x\<close>, so they are one group; the second one has the essential marker \<open>ayat_al_kursi\<close> in its
  title, so all members of the group should be retained. The script tests \<open>is_essential\<close> on the
  first member of the group only. The first member has no marker, the group is reduced to its
  morning-tagged member, and the essential record is dropped.
\<close>

theorem essential_member_dropped:
  "is_essential (dhikr (ascii ''evening'') ayat_al_kursi [120] 1) \<and>
   smart_deduplicate [dhikr (ascii ''morning'') [] [120] 1,
                      dhikr (ascii ''evening'') ayat_al_kursi [120] 1] =
     [dhikr (ascii ''morning'') [] [120] 1]"
  using tag_neq
  by (simp add: essential_title smart_deduplicate_def text_groups_def dhikr_sel
      not_essential_plain)

text \<open>
  Claim C8 does not hold of \<open>smart_deduplicate.py\<close>. In the collection below the two records have
  the same text, and the first one is essential by its title: the first pass keeps both and
  sorts the evening-tagged record before the sleep-tagged one. On this output the first member of
  the group is the record without a marker, so the second pass keeps that record alone and drops
  the essential one.
\<close>

theorem second_pass_drops_essential:
  "smart_deduplicate [dhikr (ascii ''sleep'') ayat_al_kursi [120] 1,
                      dhikr (ascii ''evening'') [] [120] 1] =
     [dhikr (ascii ''evening'') [] [120] 1, dhikr (ascii ''sleep'') ayat_al_kursi [120] 1] \<and>
   smart_deduplicate (smart_deduplicate [dhikr (ascii ''sleep'') ayat_al_kursi [120] 1,
                      dhikr (ascii ''evening'') [] [120] 1]) =
     [dhikr (ascii ''evening'') [] [120] 1]"
proof -
  have 1: "smart_deduplicate [dhikr (ascii ''sleep'') ayat_al_kursi [120] 1,
                      dhikr (ascii ''evening'') [] [120] 1] =
     [dhikr (ascii ''evening'') [] [120] 1, dhikr (ascii ''sleep'') ayat_al_kursi [120] 1]"
    using tag_order tag_neq
    by (simp add: essential_title smart_deduplicate_def text_groups_def dhikr_sel
      not_essential_plain less_eq_prod_def)
  have 2: "smart_deduplicate [dhikr (ascii ''evening'') [] [120] 1,
         dhikr (ascii ''sleep'') ayat_al_kursi [120] 1] = [dhikr (ascii ''evening'') [] [120] 1]"
    using tag_order tag_neq
    by (simp add: essential_title smart_deduplicate_def text_groups_def dhikr_sel
      not_essential_plain less_eq_prod_def)
  show ?thesis using 1 2 by simp
qed

text \<open>The reconciliation only selects: every record of its output is a record of its input.\<close>

lemma add_item_members:
  "(\<Union>g\<in>set (add_item x groups). set (snd g)) = insert x (\<Union>g\<in>set groups. set (snd g))"
proof (induction groups)
  case Nil
  then show ?case by simp
next
  case (Cons g groups)
  obtain k items where g: "g = (k, items)" by (cases g)
  show ?case
  proof (cases "k = take 100 (dhikr_text x)")
    case True
    then show ?thesis using g by auto
  next
    case False
    then show ?thesis using g Cons.IH by auto
  qed
qed

lemma foldl_add_item_members:
  "(\<Union>g\<in>set (foldl (\<lambda>groups item. add_item item groups) g0 xs). set (snd g)) =
     set xs \<union> (\<Union>g\<in>set g0. set (snd g))"
proof (induction xs arbitrary: g0)
  case Nil
  then show ?case by simp
next
  case (Cons x xs)
  show ?case using Cons.IH[of "add_item x g0"] add_item_members[of x g0] by simp
qed

lemma text_groups_members: "(\<Union>g\<in>set (text_groups xs). set (snd g)) = set xs"
  using foldl_add_item_members[of "[]" xs] by (simp add: text_groups_def)

lemma find_in_set: "find P xs = Some x \<Longrightarrow> x \<in> set xs"
  by (induction xs) (auto split: if_splits)

lemma keep_of_group_subset: "set (keep_of_group g) \<subseteq> set g"
proof (cases g rule: keep_of_group.cases)
  case 1
  then show ?thesis by simp
next
  case (2 item)
  then show ?thesis by simp
next
  case (3 first v va)
  show ?thesis
  proof (cases "find (\<lambda>i. category i = ascii ''morning'') (first # v # va)")
    case None
    then show ?thesis using 3 by simp
  next
    case (Some m)
    from find_in_set[OF Some] have "m \<in> set g" using 3 by simp
    then show ?thesis using 3 Some by simp
  qed
qed

lemma smart_deduplicate_subset: "set (smart_deduplicate athkar) \<subseteq> set athkar"
proof
  fix x
  assume "x \<in> set (smart_deduplicate athkar)"
  then obtain g where g: "g \<in> set (text_groups athkar)" "x \<in> set (keep_of_group (snd g))"
    by (auto simp add: smart_deduplicate_def)
  then have "x \<in> set (snd g)" using keep_of_group_subset by blast
  then have "x \<in> (\<Union>g\<in>set (text_groups athkar). set (snd g))" using g(1) by blast
  then show "x \<in> set athkar" by (simp only: text_groups_members)
qed


section \<open>Properties of \<open>orderIndex\<close>\<close>

lemma count_up_Suc: "map (\<lambda>i. k + 1 + int i) [0..<Suc n] = (k + 1) # map (\<lambda>i. (k + 1) + 1 + int i) [0..<n]"
proof -
  have "map (\<lambda>i. k + 1 + int i) [0..<Suc n] = (k + 1) # map (\<lambda>i. k + 1 + int (Suc i)) [0..<n]"
    by (simp add: map_upt_Suc del: upt_Suc)
  then show ?thesis by (simp add: add.assoc add.commute)
qed

lemma split_cls_order:
  "split_cls cid item clss mi ei = (es, mi', ei') \<Longrightarrow>
     mi' = mi + int (length (filter tagged_morning es)) \<and>
     ei' = ei + int (length (filter (\<lambda>e. \<not> tagged_morning e) es)) \<and>
     map entry_orderIndex (filter tagged_morning es) =
       map (\<lambda>i. mi + 1 + int i) [0..<length (filter tagged_morning es)] \<and>
     map entry_orderIndex (filter (\<lambda>e. \<not> tagged_morning e) es) =
       map (\<lambda>i. ei + 1 + int i) [0..<length (filter (\<lambda>e. \<not> tagged_morning e) es)]"
proof (induction clss arbitrary: mi ei es mi' ei')
  case Nil
  then show ?case by simp
next
  case (Cons cls rest)
  show ?case
  proof (cases "cls = ascii ''morning''")
    case True
    obtain more m2 e2 where r: "split_cls cid item rest (mi + 1) ei = (more, m2, e2)"
      by (metis prod_cases3)
    define e where "e = (convert_item cid title_morning item mi (Some cls) None (ascii ''daily''))
          \<lparr>entry_id := make_id cid (item_id item - 1) (Some (take 1 cls))\<rparr>"
    have es: "es = e # more" "mi' = m2" "ei' = e2"
      using Cons.prems True r by (simp_all add: Let_def e_def)
    have m: "tagged_morning e" "entry_orderIndex e = mi + 1"
      using True by (simp_all add: e_def tagged_morning_def convert_item_def)
    from Cons.IH[OF r] show ?thesis
      using es m by (simp add: count_up_Suc del: upt_Suc)
  next
    case False
    obtain more m2 e2 where r: "split_cls cid item rest mi (ei + 1) = (more, m2, e2)"
      by (metis prod_cases3)
    define e where "e = (convert_item cid title_evening item ei (Some cls) None (ascii ''daily''))
          \<lparr>entry_id := make_id cid (item_id item - 1) (Some (take 1 cls))\<rparr>"
    have es: "es = e # more" "mi' = m2" "ei' = e2"
      using Cons.prems False r by (simp_all add: Let_def e_def)
    have m: "\<not> tagged_morning e" "entry_orderIndex e = ei + 1"
      using False by (simp_all add: e_def tagged_morning_def convert_item_def)
    from Cons.IH[OF r] show ?thesis
      using es m by (simp add: count_up_Suc del: upt_Suc)
  qed
qed

lemma count_up_append:
  "map (\<lambda>i. k + 1 + int i) [0..<a] @ map (\<lambda>i. (k + int a) + 1 + int i) [0..<b] =
   map (\<lambda>i. k + 1 + int i) [0..<a + b]"
  by (rule nth_equalityI) (auto simp add: nth_append)

lemma split_items_order:
  "map entry_orderIndex (filter tagged_morning (split_items cid items mi ei)) =
     map (\<lambda>i. mi + 1 + int i) [0..<length (filter tagged_morning (split_items cid items mi ei))] \<and>
   map entry_orderIndex (filter (\<lambda>e. \<not> tagged_morning e) (split_items cid items mi ei)) =
     map (\<lambda>i. ei + 1 + int i)
       [0..<length (filter (\<lambda>e. \<not> tagged_morning e) (split_items cid items mi ei))]"
proof (induction items arbitrary: mi ei)
  case Nil
  then show ?case by simp
next
  case (Cons item items)
  obtain es mi' ei' where s: "split_cls cid item (classify_morning_evening (item_text item)) mi ei = (es, mi', ei')"
    by (metis prod_cases3)
  note o = split_cls_order[OF s]
  note ih = Cons.IH[of mi' ei']
  have 1: "map entry_orderIndex (filter tagged_morning (es @ split_items cid items mi' ei')) =
     map (\<lambda>i. mi + 1 + int i) [0..<length (filter tagged_morning (es @ split_items cid items mi' ei'))]"
    using o ih by (simp add: count_up_append del: upt_Suc)
  have 2: "map entry_orderIndex (filter (\<lambda>e. \<not> tagged_morning e) (es @ split_items cid items mi' ei')) =
     map (\<lambda>i. ei + 1 + int i)
       [0..<length (filter (\<lambda>e. \<not> tagged_morning e) (es @ split_items cid items mi' ei'))]"
    using o ih by (simp add: count_up_append del: upt_Suc)
  show ?case using s 1 2 by simp
qed

lemma split_tags_category:
  "(c, i) \<in> set (split_tags item) \<Longrightarrow> c = Some (ascii ''morning'') \<or> c = Some (ascii ''evening'')"
  by (auto simp add: split_tags_def Let_def split: if_splits)

lemma split_category_tagged:
  assumes "e \<in> set (convert_category (cat\<lparr>cat_id := 1\<rparr>))"
  shows "tagged_morning e \<or> tagged_evening e"
proof -
  have "(entry_category e, entry_id e) \<in>
      set (map (\<lambda>e. (entry_category e, entry_id e)) (convert_category (cat\<lparr>cat_id := 1\<rparr>)))"
    using assms by force
  then have "(entry_category e, entry_id e) \<in> set (concat (map split_tags (cat_array cat)))"
    by (simp only: convert_category_split)
  then obtain item where "(entry_category e, entry_id e) \<in> set (split_tags item)" by auto
  from split_tags_category[OF this] show ?thesis
    by (simp add: tagged_morning_def tagged_evening_def)
qed

lemma tags_differ: "ascii ''morning'' \<noteq> ascii ''evening''"
  by (simp add: ascii_def)

lemma split_category_evening:
  "filter tagged_evening (convert_category (cat\<lparr>cat_id := 1\<rparr>)) =
   filter (\<lambda>e. \<not> tagged_morning e) (convert_category (cat\<lparr>cat_id := 1\<rparr>))"
proof (rule filter_cong[OF refl])
  fix e assume "e \<in> set (convert_category (cat\<lparr>cat_id := 1\<rparr>))"
  from split_category_tagged[OF this] show "tagged_evening e = (\<not> tagged_morning e)"
    using tags_differ by (auto simp add: tagged_morning_def tagged_evening_def)
qed

lemma enumerate_index: "map (\<lambda>p. f (fst p)) (enumerate 0 xs) = map f [0..<length xs]"
  by (rule nth_equalityI) (simp_all add: nth_enumerate_eq)

lemma CATEGORY_MAP_4:
  "CATEGORY_MAP 4 = Some (ascii ''hisn'', Some (ascii ''hisn''), Some (ascii ''home''))"
  by (simp add: CATEGORY_MAP_def)

text \<open>
  Claim C9, as the code has it. \<open>orderIndex\<close> counts the items of one source category: the
  records of a mapped source category other than the split one carry 1, 2, ... in order, and
  under the split id the records of the morning branch carry 1, 2, ... and so do those of the
  evening branch, every record being in one of the two branches. The count starts again at 1
  for every source category, whatever output category it is mapped to. The duplicate
  reconciliation never renumbers: every record of its output is a record of its input.
\<close>

theorem orderIndex_per_source_category:
  "(CATEGORY_MAP (cat_id cat) \<noteq> None \<and> cat_id cat \<noteq> 1 \<longrightarrow>
      map entry_orderIndex (convert_category cat) =
        map (\<lambda>i. int i + 1) [0..<length (cat_array cat)]) \<and>
   map entry_orderIndex (filter tagged_morning (convert_category (cat\<lparr>cat_id := 1\<rparr>))) =
     map (\<lambda>i. int i + 1)
       [0..<length (filter tagged_morning (convert_category (cat\<lparr>cat_id := 1\<rparr>)))] \<and>
   map entry_orderIndex (filter tagged_evening (convert_category (cat\<lparr>cat_id := 1\<rparr>))) =
     map (\<lambda>i. int i + 1)
       [0..<length (filter tagged_evening (convert_category (cat\<lparr>cat_id := 1\<rparr>)))] \<and>
   filter (\<lambda>e. \<not> tagged_morning e \<and> \<not> tagged_evening e)
     (convert_category (cat\<lparr>cat_id := 1\<rparr>)) = [] \<and>
   set (smart_deduplicate athkar) \<subseteq> set athkar"
proof (intro conjI impI)
  assume a: "CATEGORY_MAP (cat_id cat) \<noteq> None \<and> cat_id cat \<noteq> 1"
  then obtain src c h where m: "CATEGORY_MAP (cat_id cat) = Some (src, c, h)"
    by (metis not_None_eq prod_cases3)
  have "convert_category cat =
     map (\<lambda>(i, item). convert_item (cat_id cat) (cat_category cat) item (int i) c h src)
       (enumerate 0 (cat_array cat))"
    using convert_category_mapped[OF m] a by simp
  then have "map entry_orderIndex (convert_category cat) =
     map (\<lambda>(i, item). int i + 1) (enumerate 0 (cat_array cat))"
    by (simp add: convert_item_def case_prod_unfold comp_def)
  then show "map entry_orderIndex (convert_category cat) =
        map (\<lambda>i. int i + 1) [0..<length (cat_array cat)]"
    using enumerate_index[of "\<lambda>i. int i + 1" "cat_array cat"]
    by (simp add: case_prod_unfold del: upt_Suc)
next
  have c: "convert_category (cat\<lparr>cat_id := 1\<rparr>) = split_items 1 (cat_array cat) 0 0"
    by (simp add: convert_category_def CATEGORY_MAP_1)
  have r: "(\<lambda>i. (0::int) + 1 + int i) = (\<lambda>i. int i + 1)" by auto
  have ev: "filter tagged_evening (split_items 1 (cat_array cat) 0 0) =
      filter (\<lambda>e. \<not> tagged_morning e) (split_items 1 (cat_array cat) 0 0)"
    using split_category_evening[of cat] by (simp only: c)
  show "map entry_orderIndex (filter tagged_morning (convert_category (cat\<lparr>cat_id := 1\<rparr>))) =
     map (\<lambda>i. int i + 1)
       [0..<length (filter tagged_morning (convert_category (cat\<lparr>cat_id := 1\<rparr>)))]"
    using split_items_order[of 1 "cat_array cat" 0 0] by (simp only: c r)
  show "map entry_orderIndex (filter tagged_evening (convert_category (cat\<lparr>cat_id := 1\<rparr>))) =
     map (\<lambda>i. int i + 1)
       [0..<length (filter tagged_evening (convert_category (cat\<lparr>cat_id := 1\<rparr>)))]"
    using split_items_order[of 1 "cat_array cat" 0 0] by (simp only: c r ev)
  show "filter (\<lambda>e. \<not> tagged_morning e \<and> \<not> tagged_evening e)
     (convert_category (cat\<lparr>cat_id := 1\<rparr>)) = []"
    using split_category_tagged[of _ cat] by (auto simp add: filter_empty_conv)
next
  show "set (smart_deduplicate athkar) \<subseteq> set athkar" by (rule smart_deduplicate_subset)
qed

text \<open>A source category of id 5 with two items.\<close>

theorem orderIndex_per_source_category_witness:
  "CATEGORY_MAP 5 \<noteq> None \<and>
   map entry_orderIndex
     (convert_category \<lparr>cat_id = 5, cat_category = [],
        cat_array = [\<lparr>item_id = 1, item_text = [97], item_count = None\<rparr>,
                     \<lparr>item_id = 2, item_text = [98], item_count = None\<rparr>]\<rparr>) = [1, 2]"
  using orderIndex_per_source_category[of "\<lparr>cat_id = 5, cat_category = [],
        cat_array = [\<lparr>item_id = 1, item_text = [97], item_count = None\<rparr>,
                     \<lparr>item_id = 2, item_text = [98], item_count = None\<rparr>]\<rparr>"]
  by (simp add: CATEGORY_MAP_5)

text \<open>
  Claim C9 as it is worded fails. The source categories 4 and 5 are both mapped to the category
  \<open>hisn\<close> and the \<open>hisnCategory\<close> \<open>home\<close>, and the first item of each gets \<open>orderIndex\<close> 1: it is not
  unique in that category. After the reconciliation has removed the evening-tagged duplicate
  with \<open>orderIndex\<close> 1, the only evening record left has \<open>orderIndex\<close> 2: the sequence of the
  evening category does not start at 1.
\<close>

theorem orderIndex_not_unique:
  "map (\<lambda>e. (entry_category e, hisnCategory e, entry_orderIndex e))
     (main [\<lparr>cat_id = 4, cat_category = [],
              cat_array = [\<lparr>item_id = 1, item_text = [97], item_count = None\<rparr>]\<rparr>,
            \<lparr>cat_id = 5, cat_category = [],
              cat_array = [\<lparr>item_id = 1, item_text = [98], item_count = None\<rparr>]\<rparr>]) =
     [(Some (ascii ''hisn''), Some (ascii ''home''), 1),
      (Some (ascii ''hisn''), Some (ascii ''home''), 1)] \<and>
   map (\<lambda>d. (category d, orderIndex d))
     (smart_deduplicate [dhikr (ascii ''morning'') [] [120] 1,
                         dhikr (ascii ''evening'') [] [120] 1,
                         dhikr (ascii ''evening'') [] [121] 2]) =
     [(ascii ''evening'', 2), (ascii ''morning'', 1)]"
proof -
  have 1: "map (\<lambda>e. (entry_category e, hisnCategory e, entry_orderIndex e))
     (main [\<lparr>cat_id = 4, cat_category = [],
              cat_array = [\<lparr>item_id = 1, item_text = [97], item_count = None\<rparr>]\<rparr>,
            \<lparr>cat_id = 5, cat_category = [],
              cat_array = [\<lparr>item_id = 1, item_text = [98], item_count = None\<rparr>]\<rparr>]) =
     [(Some (ascii ''hisn''), Some (ascii ''home''), 1),
      (Some (ascii ''hisn''), Some (ascii ''home''), 1)]"
    by (simp add: main_def convert_category_def CATEGORY_MAP_4 CATEGORY_MAP_5 convert_item_def)
  have n: "\<not> is_essential (dhikr cat [] [120] idx)" for cat idx
    by (rule not_essential_plain)
  have 2: "smart_deduplicate [dhikr (ascii ''morning'') [] [120] 1,
                         dhikr (ascii ''evening'') [] [120] 1,
                         dhikr (ascii ''evening'') [] [121] 2] =
     [dhikr (ascii ''evening'') [] [121] 2, dhikr (ascii ''morning'') [] [120] 1]"
    using tag_order tag_neq
    by (simp add: smart_deduplicate_def text_groups_def dhikr_sel n less_eq_prod_def)
  show ?thesis using 1 by (simp add: 2 dhikr_sel)
qed


section \<open>Properties of the similarity ratio\<close>

text \<open>
  A sequence compared with itself. While \<open>find_longest_match\<close> goes through the rows, the best
  block stays on the diagonal: an entry of \<open>j2len\<close> off the diagonal is never longer than the
  run of unpopular elements that ends in its row or in its column, and the best block is
  already as long as each such run of the rows before.
\<close>

lemma unpopular_run_le: "unpopular_run x m \<le> m"
  by (induction m) auto

lemma j2lenget_le:
  assumes "\<forall>j v. j2len j = Some v \<longrightarrow> v \<le> unpopular_run x (Suc j) \<and> v \<le> unpopular_run x r"
  shows "j2lenget j2len j \<le> unpopular_run x j" and "j2lenget j2len j \<le> unpopular_run x r"
proof -
  show "j2lenget j2len j \<le> unpopular_run x j"
  proof (cases j)
    case 0
    then show ?thesis by (simp add: j2lenget_def)
  next
    case (Suc m)
    then show ?thesis using assms[rule_format, of m]
      by (auto simp add: j2lenget_def split: option.splits)
  qed
  show "j2lenget j2len j \<le> unpopular_run x r"
    using assms by (auto simp add: j2lenget_def split: option.splits)
qed

lemma j2lenget_diag:
  assumes "\<forall>j v. j2len j = Some v \<longrightarrow> v \<le> unpopular_run x (Suc j) \<and> v \<le> unpopular_run x r"
    and "0 < unpopular_run x r \<longrightarrow> j2len (r - 1) = Some (unpopular_run x r)"
  shows "j2lenget j2len r = unpopular_run x r"
proof (cases r)
  case 0
  then show ?thesis by (simp add: j2lenget_def)
next
  case (Suc m)
  show ?thesis
  proof (cases "0 < unpopular_run x r")
    case True
    then show ?thesis using assms(2) Suc by (simp add: j2lenget_def)
  next
    case False
    then have "j2lenget j2len r \<le> 0" using j2lenget_le(2)[OF assms(1), of r] by simp
    then show ?thesis using False by simp
  qed
qed

lemma inner_loop_diag:
  assumes n: "n = length x" and r: "r < n" and np: "\<not> popular x (x ! r)"
    and C: "\<forall>j v. j2len j = Some v \<longrightarrow> v \<le> unpopular_run x (Suc j) \<and> v \<le> unpopular_run x r"
    and E: "0 < unpopular_run x r \<longrightarrow> j2len (r - 1) = Some (unpopular_run x r)"
    and js: "sorted js" "distinct js" "\<forall>j\<in>set js. j < n \<and> x ! j = x ! r"
    and st: "bi = bj" "bi + bs \<le> n" "\<forall>j<r. unpopular_run x (Suc j) \<le> bs"
      "\<forall>j v. new j = Some v \<longrightarrow> v \<le> unpopular_run x (Suc j) \<and> v \<le> unpopular_run x (Suc r)"
    and pos: "r \<in> set js \<or>
      (new r = Some (unpopular_run x (Suc r)) \<and> unpopular_run x (Suc r) \<le> bs \<and> (\<forall>j\<in>set js. r < j))"
    and res: "inner_loop r 0 n j2len js (new, bi, bj, bs) = (new', bi', bj', bs')"
  shows "bi' = bj' \<and> bi' + bs' \<le> n \<and> (\<forall>j<Suc r. unpopular_run x (Suc j) \<le> bs') \<and>
    (\<forall>j v. new' j = Some v \<longrightarrow> v \<le> unpopular_run x (Suc j) \<and> v \<le> unpopular_run x (Suc r)) \<and>
    new' r = Some (unpopular_run x (Suc r))"
  using js st pos res
proof (induction js arbitrary: new bi bj bs)
  case Nil
  from Nil.prems(8) have p: "new r = Some (unpopular_run x (Suc r))" "unpopular_run x (Suc r) \<le> bs"
    by auto
  from Nil.prems(9) have e: "new' = new" "bi' = bi" "bj' = bj" "bs' = bs" by auto
  have "\<forall>j<Suc r. unpopular_run x (Suc j) \<le> bs"
    using Nil.prems(6) p(2) less_Suc_eq by auto
  then show ?case using e p Nil.prems(4,5,7) by simp
next
  case (Cons j js)
  have jn: "j < n" and xj: "x ! j = x ! r" using Cons.prems(3) by auto
  have sjs: "sorted js" "distinct js" "\<forall>j\<in>set js. j < n \<and> x ! j = x ! r"
    using Cons.prems(1,2,3) by auto
  define k where "k = j2lenget j2len j + 1"
  have rj: "unpopular_run x (Suc j) = unpopular_run x j + 1" using np xj by simp
  have rr: "unpopular_run x (Suc r) = unpopular_run x r + 1" using np by simp
  have k1: "k \<le> unpopular_run x (Suc j)"
    using j2lenget_le(1)[OF C, of j] rj by (simp add: k_def)
  have k2: "k \<le> unpopular_run x (Suc r)"
    using j2lenget_le(2)[OF C, of j] rr by (simp add: k_def)
  have ent: "\<forall>j' v. (new(j \<mapsto> k)) j' = Some v \<longrightarrow>
      v \<le> unpopular_run x (Suc j') \<and> v \<le> unpopular_run x (Suc r)"
    using Cons.prems(7) k1 k2 by auto
  consider (lt) "j < r" | (eq) "j = r" | (gt) "r < j" by linarith
  then show ?case
  proof cases
    case lt
    have kb: "k \<le> bs" using k1 Cons.prems(6) lt by (meson le_trans)
    have step: "inner_loop r 0 n j2len (j # js) (new, bi, bj, bs) =
        inner_loop r 0 n j2len js (new(j \<mapsto> k), bi, bj, bs)"
      using jn kb by (simp add: k_def Let_def)
    have rin: "r \<in> set js" using Cons.prems(8) lt by auto
    have res': "inner_loop r 0 n j2len js (new(j \<mapsto> k), bi, bj, bs) = (new', bi', bj', bs')"
      using step Cons.prems(9) by (simp only:)
    have pos': "r \<in> set js \<or>
      ((new(j \<mapsto> k)) r = Some (unpopular_run x (Suc r)) \<and> unpopular_run x (Suc r) \<le> bs \<and>
       (\<forall>j\<in>set js. r < j))"
      using rin by simp
    show ?thesis
      by (rule Cons.IH[OF sjs Cons.prems(4,5,6) ent pos' res'])
  next
    case eq
    have kd: "k = unpopular_run x (Suc r)"
      using j2lenget_diag[OF C E] rr eq by (simp add: k_def)
    have after: "\<forall>j'\<in>set js. r < j'"
      using Cons.prems(1,2) eq by (auto simp add: le_less)
    show ?thesis
    proof (cases "bs < k")
      case True
      have step: "inner_loop r 0 n j2len (j # js) (new, bi, bj, bs) =
        inner_loop r 0 n j2len js (new(j \<mapsto> k), r + 1 - k, j + 1 - k, k)"
        using jn True eq by (simp add: k_def Let_def)
      have kr: "k \<le> r + 1" using kd unpopular_run_le[of x "Suc r"] by simp
      have b1: "r + 1 - k = j + 1 - k" using eq by simp
      have b2: "r + 1 - k + k \<le> n" using kr r by simp
      have b3: "\<forall>j<r. unpopular_run x (Suc j) \<le> k" using Cons.prems(6) True by auto
      have res': "inner_loop r 0 n j2len js (new(j \<mapsto> k), r + 1 - k, j + 1 - k, k) =
          (new', bi', bj', bs')"
        using step Cons.prems(9) by (simp only:)
      have pos': "r \<in> set js \<or>
        ((new(j \<mapsto> k)) r = Some (unpopular_run x (Suc r)) \<and> unpopular_run x (Suc r) \<le> k \<and>
         (\<forall>j\<in>set js. r < j))"
        using after kd eq by simp
      show ?thesis
        by (rule Cons.IH[OF sjs b1 b2 b3 ent pos' res'])
    next
      case False
      have step: "inner_loop r 0 n j2len (j # js) (new, bi, bj, bs) =
        inner_loop r 0 n j2len js (new(j \<mapsto> k), bi, bj, bs)"
        using jn False by (simp add: k_def Let_def)
      have res': "inner_loop r 0 n j2len js (new(j \<mapsto> k), bi, bj, bs) = (new', bi', bj', bs')"
        using step Cons.prems(9) by (simp only:)
      have pos': "r \<in> set js \<or>
        ((new(j \<mapsto> k)) r = Some (unpopular_run x (Suc r)) \<and> unpopular_run x (Suc r) \<le> bs \<and>
         (\<forall>j\<in>set js. r < j))"
        using after kd eq False by simp
      show ?thesis
        by (rule Cons.IH[OF sjs Cons.prems(4,5,6) ent pos' res'])
    qed
  next
    case gt
    have nin: "r \<notin> set (j # js)" using Cons.prems(1) gt by auto
    then have p: "new r = Some (unpopular_run x (Suc r))" "unpopular_run x (Suc r) \<le> bs"
      "\<forall>j\<in>set js. r < j"
      using Cons.prems(8) by auto
    have kb: "k \<le> bs" using k2 p(2) by simp
    have step: "inner_loop r 0 n j2len (j # js) (new, bi, bj, bs) =
        inner_loop r 0 n j2len js (new(j \<mapsto> k), bi, bj, bs)"
      using jn kb by (simp add: k_def Let_def)
    have res': "inner_loop r 0 n j2len js (new(j \<mapsto> k), bi, bj, bs) = (new', bi', bj', bs')"
      using step Cons.prems(9) by (simp only:)
    have pos': "r \<in> set js \<or>
      ((new(j \<mapsto> k)) r = Some (unpopular_run x (Suc r)) \<and> unpopular_run x (Suc r) \<le> bs \<and>
       (\<forall>j\<in>set js. r < j))"
      using p gt by simp
    show ?thesis
      by (rule Cons.IH[OF sjs Cons.prems(4,5,6) ent pos' res'])
  qed
qed

lemma outer_loop_diag:
  assumes n: "n = length x"
  shows "r \<le> n \<Longrightarrow>
    \<forall>j v. j2len j = Some v \<longrightarrow> v \<le> unpopular_run x (Suc j) \<and> v \<le> unpopular_run x r \<Longrightarrow>
    0 < unpopular_run x r \<longrightarrow> j2len (r - 1) = Some (unpopular_run x r) \<Longrightarrow>
    bi = bj \<Longrightarrow> bi + bs \<le> n \<Longrightarrow> \<forall>j<r. unpopular_run x (Suc j) \<le> bs \<Longrightarrow>
    outer_loop x x 0 n [r..<n] (j2len, bi, bj, bs) = (bi', bj', bs') \<Longrightarrow>
    bi' = bj' \<and> bi' + bs' \<le> n"
proof (induction "n - r" arbitrary: r j2len bi bj bs)
  case 0
  then have "r = n" by simp
  then show ?case using 0 by simp
next
  case (Suc d)
  then have rn: "r < n" by simp
  have up: "[r..<n] = r # [Suc r..<n]" using rn by (simp add: upt_conv_Cons)
  obtain new' b1 b2 b3 where il:
    "inner_loop r 0 n j2len (b2j x (x ! r)) (Map.empty, bi, bj, bs) = (new', b1, b2, b3)"
    by (metis prod_cases4)
  have ol: "outer_loop x x 0 n [Suc r..<n] (new', b1, b2, b3) = (bi', bj', bs')"
    using Suc.prems(7) up il by simp
  have d: "d = n - Suc r" using Suc.hyps(2) by simp
  show ?case
  proof (cases "popular x (x ! r)")
    case True
    then have e: "new' = Map.empty" "b1 = bi" "b2 = bj" "b3 = bs"
      using il by (simp_all add: b2j_def)
    have z: "unpopular_run x (Suc r) = 0" using True by simp
    have 3: "\<forall>j<Suc r. unpopular_run x (Suc j) \<le> bs"
      using Suc.prems(6) z less_Suc_eq by auto
    show ?thesis
      by (rule Suc.hyps(1)[OF d _ _ _ _ _ _ ol[unfolded e]])
         (use rn z Suc.prems(4,5) 3 in auto)
  next
    case False
    have js: "sorted (b2j x (x ! r))" "distinct (b2j x (x ! r))"
      "\<forall>j\<in>set (b2j x (x ! r)). j < n \<and> x ! j = x ! r"
      using False n by (auto simp add: b2j_def sorted_wrt_filter)
    have rin: "r \<in> set (b2j x (x ! r))" using False rn n by (simp add: b2j_def)
    have post: "b1 = b2 \<and> b1 + b3 \<le> n \<and> (\<forall>j<Suc r. unpopular_run x (Suc j) \<le> b3) \<and>
      (\<forall>j v. new' j = Some v \<longrightarrow> v \<le> unpopular_run x (Suc j) \<and> v \<le> unpopular_run x (Suc r)) \<and>
      new' r = Some (unpopular_run x (Suc r))"
      by (rule inner_loop_diag[OF n rn False Suc.prems(2,3) js Suc.prems(4,5,6) _ _ il])
         (use rin in auto)
    show ?thesis
      by (rule Suc.hyps(1)[OF d _ _ _ _ _ _ ol])
         (use rn post in auto)
  qed
qed

lemma extend_left_diag: "extend_left x x 0 0 (i, i, k) = (0, 0, i + k)"
proof (induction i arbitrary: k)
  case 0
  then show ?case by (subst extend_left.simps) simp
next
  case (Suc i)
  show ?case using Suc.IH[of "k + 1"] by (subst extend_left.simps) simp
qed

lemma extend_right_diag:
  "k \<le> length x \<Longrightarrow> extend_right x x (length x) (length x) (0, 0, k) = (0, 0, length x)"
proof (induction "length x - k" arbitrary: k)
  case 0
  then show ?case by (subst extend_right.simps) simp
next
  case (Suc d)
  then have "extend_right x x (length x) (length x) (0, 0, k + 1) = (0, 0, length x)"
    by simp
  moreover have "k < length x" using Suc.hyps(2) by linarith
  ultimately show ?case by (subst extend_right.simps) simp
qed

text \<open>The whole sequence is the longest match, also when the heuristic drops popular
  elements: the two extension loops compare all elements.\<close>

lemma find_longest_match_same:
  "find_longest_match x x 0 (length x) 0 (length x) = (0, 0, length x)"
proof -
  obtain bi bj bs where ol:
    "outer_loop x x 0 (length x) [0..<length x] (Map.empty, 0, 0, 0) = (bi, bj, bs)"
    by (metis prod_cases3)
  have "bi = bj \<and> bi + bs \<le> length x"
    by (rule outer_loop_diag[OF refl _ _ _ _ _ _ ol]) auto
  then show ?thesis
    using ol by (simp add: find_longest_match_def extend_left_diag extend_right_diag)
qed

lemma blocks_loop_same:
  "blocks_loop x x [(0, length x, 0, length x)] [] =
     (if x = [] then [] else [(0, 0, length x)])"
  by (simp add: blocks_loop.simps find_longest_match_same)

lemma ratio_same: "ratio x x = 1"
  by (simp add: ratio_def get_matching_blocks_def blocks_loop_same Let_def)

lemma similar_same: "similar x x = 1"
  by (simp add: similar_def ratio_same)


section \<open>Properties of the normalization\<close>

lemma marker_not_space: "is_space c \<Longrightarrow> c \<noteq> 1757"
  by (auto simp add: is_space_def)

lemma py_split_space: "is_space c \<Longrightarrow> py_split (u @ c # v) = py_split u @ py_split v"
proof (induction u rule: py_split.induct)
  case 1
  then show ?case by simp
next
  case (2 a as)
  show ?case
  proof (cases "is_space a")
    case True
    then show ?thesis using 2 by simp
  next
    case False
    show ?thesis
    proof (cases "\<forall>y\<in>set as. \<not> is_space y")
      case True
      then have t: "takeWhile (\<lambda>x. \<not> is_space x) (as @ c # v) = as"
        "dropWhile (\<lambda>x. \<not> is_space x) (as @ c # v) = c # v"
        "takeWhile (\<lambda>x. \<not> is_space x) as = as" "dropWhile (\<lambda>x. \<not> is_space x) as = []"
        using 2(3) by (simp_all add: takeWhile_append2 dropWhile_append2)
      show ?thesis using False 2(3) by (simp add: t)
    next
      case nt: False
      then obtain y where y: "y \<in> set as" "is_space y" by auto
      then have t: "takeWhile (\<lambda>x. \<not> is_space x) (as @ c # v) = takeWhile (\<lambda>x. \<not> is_space x) as"
        "dropWhile (\<lambda>x. \<not> is_space x) (as @ c # v) = dropWhile (\<lambda>x. \<not> is_space x) as @ c # v"
        by (simp_all add: takeWhile_append1 dropWhile_append1)
      show ?thesis using False 2(2)[OF False 2(3)] by (simp add: t)
    qed
  qed
qed

lemma py_split_trailing: "is_space c \<Longrightarrow> py_split (u @ [c]) = py_split u"
  using py_split_space[of c u "[]"] by simp

lemma same_text_words:
  "same_text s t \<Longrightarrow>
     py_split (filter (\<lambda>c. c \<noteq> 1757) s) = py_split (filter (\<lambda>c. c \<noteq> 1757) t)"
proof (induction rule: same_text.induct)
  case (same_refl t)
  then show ?case by simp
next
  case (same_sym s t)
  then show ?case by simp
next
  case (same_trans s t u)
  then show ?case by simp
next
  case (same_marker u v)
  then show ?case by simp
next
  case (same_run c d u v)
  then show ?case
    using py_split_space[of c "filter (\<lambda>c. c \<noteq> 1757) u" "filter (\<lambda>c. c \<noteq> 1757) v"]
      py_split_space[of c "filter (\<lambda>c. c \<noteq> 1757) u" "d # filter (\<lambda>c. c \<noteq> 1757) v"]
    by (simp add: marker_not_space)
next
  case (same_kind c d u v)
  then show ?case
    using py_split_space[of c "filter (\<lambda>c. c \<noteq> 1757) u" "filter (\<lambda>c. c \<noteq> 1757) v"]
      py_split_space[of d "filter (\<lambda>c. c \<noteq> 1757) u" "filter (\<lambda>c. c \<noteq> 1757) v"]
    by (simp add: marker_not_space)
next
  case (same_lead c u)
  then show ?case by (simp add: marker_not_space)
next
  case (same_trail c u)
  then show ?case
    using py_split_trailing[of c "filter (\<lambda>c. c \<noteq> 1757) u"] by (simp add: marker_not_space)
qed

lemma same_text_clean: "same_text s t \<Longrightarrow> clean_text s = clean_text t"
  using same_text_words[of s t] by (simp add: clean_text_def)

lemma space_32: "is_space 32"
  by (simp add: is_space_def)

lemma same_prefix_filter: "same_text (u @ t) (u @ filter (\<lambda>c. c \<noteq> 1757) t)"
proof (induction t arbitrary: u)
  case Nil
  then show ?case by (simp add: same_refl)
next
  case (Cons d ds)
  show ?case
  proof (cases "d = 1757")
    case True
    have "same_text (u @ [1757] @ ds) (u @ ds)" by (rule same_marker)
    then have "same_text (u @ d # ds) (u @ ds)" using True by simp
    from same_trans[OF this Cons.IH[of u]] show ?thesis using True by simp
  next
    case False
    then show ?thesis using Cons.IH[of "u @ [d]"] by simp
  qed
qed

lemma same_lead_strip: "same_text s (dropWhile is_space s)"
proof (induction s)
  case Nil
  then show ?case by (simp add: same_refl)
next
  case (Cons c cs)
  show ?case
  proof (cases "is_space c")
    case True
    from same_trans[OF same_lead[OF True, of cs] Cons.IH] show ?thesis using True by simp
  next
    case False
    then show ?thesis by (simp add: same_refl)
  qed
qed

lemma same_trail_strip: "same_text s (rev (dropWhile is_space (rev s)))"
proof (induction s rule: rev_induct)
  case Nil
  then show ?case by (simp add: same_refl)
next
  case (snoc c cs)
  show ?case
  proof (cases "is_space c")
    case True
    from same_trans[OF same_trail[OF True, of cs] snoc.IH] show ?thesis using True by simp
  next
    case False
    then show ?thesis by (simp add: same_refl)
  qed
qed

lemma same_strip: "same_text s (py_strip s)"
  unfolding py_strip_def
  by (rule same_trans[OF same_lead_strip[of s] same_trail_strip[of "dropWhile is_space s"]])

lemma insert_space: "is_space c \<Longrightarrow> same_text (u @ c # r) (u @ 32 # c # r)"
proof -
  assume c: "is_space c"
  have 1: "same_text (u @ [c] @ r) (u @ [32] @ r)" by (rule same_kind[OF c space_32])
  have 2: "same_text (u @ [32] @ r) (u @ [32, c] @ r)" by (rule same_run[OF space_32 c])
  from same_trans[OF 1 2] show ?thesis by simp
qed

lemma word_rest: "c # cs = (c # takeWhile (\<lambda>x. \<not> is_space x) cs) @ dropWhile (\<lambda>x. \<not> is_space x) cs"
  by simp

lemma rest_space:
  "dropWhile (\<lambda>x. \<not> is_space x) cs = c # r \<Longrightarrow> is_space c"
  using hd_dropWhile[of "\<lambda>x. \<not> is_space x" cs] by auto

lemma same_join_prefix:
  "same_text (u @ 32 # t)
     (case py_split t of [] \<Rightarrow> u | w # ws \<Rightarrow> u @ 32 # py_join [32] (w # ws))"
proof (induction t arbitrary: u rule: py_split.induct)
  case 1
  show ?case using same_trail[OF space_32, of u] by simp
next
  case (2 c cs)
  show ?case
  proof (cases "is_space c")
    case True
    have "same_text (u @ [32] @ cs) (u @ [32, c] @ cs)" by (rule same_run[OF space_32 True])
    from same_sym[OF this] have "same_text (u @ 32 # c # cs) (u @ 32 # cs)" by simp
    from same_trans[OF this 2(1)[OF True, of u]] show ?thesis using True by simp
  next
    case False
    define w where "w = c # takeWhile (\<lambda>x. \<not> is_space x) cs"
    define rest where "rest = dropWhile (\<lambda>x. \<not> is_space x) cs"
    have t: "c # cs = w @ rest" by (simp add: w_def rest_def)
    have sp: "py_split (c # cs) = w # py_split rest" using False by (simp add: w_def rest_def)
    show ?thesis
    proof (cases rest)
      case Nil
      then show ?thesis using sp t by (simp add: same_refl)
    next
      case (Cons s' r')
      have s': "is_space s'" using Cons rest_space[of cs s' r'] by (simp add: rest_def)
      have 1: "same_text ((u @ 32 # w) @ rest) ((u @ 32 # w) @ 32 # rest)"
        unfolding Cons by (rule insert_space[OF s'])
      have 2: "same_text ((u @ 32 # w) @ 32 # rest)
          (case py_split rest of [] \<Rightarrow> u @ 32 # w
           | v # vs \<Rightarrow> (u @ 32 # w) @ 32 # py_join [32] (v # vs))"
        using 2(2)[OF False, of "u @ 32 # w"] by (simp add: rest_def w_def)
      have 3: "(case py_split rest of [] \<Rightarrow> u @ 32 # w
           | v # vs \<Rightarrow> (u @ 32 # w) @ 32 # py_join [32] (v # vs)) =
          u @ 32 # py_join [32] (w # py_split rest)"
        by (cases "py_split rest") simp_all
      from same_trans[OF 1 2]
      have "same_text (u @ 32 # w @ rest) (u @ 32 # py_join [32] (w # py_split rest))"
        by (cases "py_split rest") simp_all
      then show ?thesis using sp t by simp
    qed
  qed
qed

lemma same_join: "same_text t (py_join [32] (py_split t))"
proof (induction t rule: py_split.induct)
  case 1
  then show ?case by (simp add: same_refl)
next
  case (2 c cs)
  show ?case
  proof (cases "is_space c")
    case True
    from same_trans[OF same_lead[OF True, of cs] 2(1)[OF True]] show ?thesis using True by simp
  next
    case False
    define w where "w = c # takeWhile (\<lambda>x. \<not> is_space x) cs"
    define rest where "rest = dropWhile (\<lambda>x. \<not> is_space x) cs"
    have t: "c # cs = w @ rest" by (simp add: w_def rest_def)
    have sp: "py_split (c # cs) = w # py_split rest" using False by (simp add: w_def rest_def)
    show ?thesis
    proof (cases rest)
      case Nil
      then show ?thesis using sp t by (simp add: same_refl)
    next
      case (Cons s' r')
      have s': "is_space s'" using Cons rest_space[of cs s' r'] by (simp add: rest_def)
      have 1: "same_text (w @ rest) (w @ 32 # rest)"
        unfolding Cons by (rule insert_space[OF s'])
      have 2: "same_text (w @ 32 # rest)
          (case py_split rest of [] \<Rightarrow> w | v # vs \<Rightarrow> w @ 32 # py_join [32] (v # vs))"
        by (rule same_join_prefix)
      have 3: "(case py_split rest of [] \<Rightarrow> w | v # vs \<Rightarrow> w @ 32 # py_join [32] (v # vs)) =
          py_join [32] (w # py_split rest)"
        by (cases "py_split rest") simp_all
      from same_trans[OF 1 2]
      have "same_text (w @ rest) (py_join [32] (w # py_split rest))"
        by (simp only: 3)
      then show ?thesis using sp t by simp
    qed
  qed
qed

lemma same_text_clean_self: "same_text t (clean_text t)"
proof -
  have 1: "same_text t (filter (\<lambda>c. c \<noteq> 1757) t)" using same_prefix_filter[of "[]" t] by simp
  have 2: "same_text (filter (\<lambda>c. c \<noteq> 1757) t) (py_join [32] (py_split (filter (\<lambda>c. c \<noteq> 1757) t)))"
    by (rule same_join)
  have 3: "same_text (py_join [32] (py_split (filter (\<lambda>c. c \<noteq> 1757) t))) (clean_text t)"
    unfolding clean_text_def by (rule same_strip)
  show ?thesis by (rule same_trans[OF 1 same_trans[OF 2 3]])
qed

lemma same_text_iff: "same_text s t \<longleftrightarrow> clean_text s = clean_text t"
proof
  assume "same_text s t"
  then show "clean_text s = clean_text t" by (rule same_text_clean)
next
  assume e: "clean_text s = clean_text t"
  have 1: "same_text s (clean_text t)" using same_text_clean_self[of s] e by simp
  have 2: "same_text (clean_text t) t" by (rule same_sym[OF same_text_clean_self[of t]])
  show "same_text s t" by (rule same_trans[OF 1 2])
qed

lemma py_split_words:
  "w \<in> set (py_split t) \<Longrightarrow> w \<noteq> [] \<and> (\<forall>c\<in>set w. \<not> is_space c) \<and> set w \<subseteq> set t"
proof (induction t rule: py_split.induct)
  case 1
  then show ?case by simp
next
  case (2 c cs)
  show ?case
  proof (cases "is_space c")
    case True
    then show ?thesis using 2(1)[OF True] 2(3) by auto
  next
    case False
    from 2(3) False consider "w = c # takeWhile (\<lambda>x. \<not> is_space x) cs"
      | "w \<in> set (py_split (dropWhile (\<lambda>x. \<not> is_space x) cs))" by auto
    then show ?thesis
    proof cases
      case 1
      then show ?thesis using False by (auto dest: set_takeWhileD)
    next
      case 2
      show ?thesis using "2.IH"(2)[OF False 2] by (auto dest: set_dropWhileD)
    qed
  qed
qed

lemma py_join_ends:
  assumes "ws \<noteq> []" "\<forall>w\<in>set ws. w \<noteq> []"
  shows "py_join sep ws \<noteq> [] \<and> hd (py_join sep ws) = hd (hd ws) \<and>
         last (py_join sep ws) = last (last ws)"
  using assms
proof (induction sep ws rule: py_join.induct)
  case (1 sep)
  then show ?case by simp
next
  case (2 sep w)
  then show ?case by simp
next
  case (3 sep w v ws)
  then have "py_join sep (v # ws) \<noteq> [] \<and> last (py_join sep (v # ws)) = last (last (v # ws))"
    by simp
  then show ?case using 3(3) by simp
qed

lemma py_join_canon:
  assumes "\<forall>w\<in>set ws. w \<noteq> [] \<and> (\<forall>c\<in>set w. \<not> is_space c)"
    and "py_join [32] ws = u @ c # v" and "is_space c"
  shows "c = 32 \<and> u \<noteq> [] \<and> v \<noteq> [] \<and> \<not> is_space (last u) \<and> \<not> is_space (hd v)"
  using assms
proof (induction "[32::nat]" ws arbitrary: u rule: py_join.induct)
  case 1
  then show ?case by simp
next
  case (2 w)
  then have "c \<in> set w" by (metis in_set_conv_decomp py_join.simps(2))
  then show ?case using 2 by auto
next
  case (3 w x ws)
  let ?J = "py_join [32] (x # ws)"
  have good: "\<forall>w\<in>set (x # ws). w \<noteq> [] \<and> (\<forall>c\<in>set w. \<not> is_space c)" using 3(2) by simp
  have w: "w \<noteq> []" "\<forall>c\<in>set w. \<not> is_space c" using 3(2) by auto
  have J: "?J \<noteq> []" "hd ?J = hd x" using py_join_ends[of "x # ws" "[32]"] good by auto
  have hx: "\<not> is_space (hd x)" using good by (metis hd_in_set list.set_intros(1))
  have lw: "\<not> is_space (last w)" using w by (metis last_in_set)
  have sep: "c = 32 \<and> w \<noteq> [] \<and> ?J \<noteq> [] \<and> \<not> is_space (last w) \<and> \<not> is_space (hd ?J)"
    if "c = 32" for c
    using that w J hx lw by simp
  have e: "w @ 32 # ?J = u @ c # v" using 3(3) by simp
  then obtain us where "(w = u @ us \<and> us @ 32 # ?J = c # v) \<or> (w @ us = u \<and> 32 # ?J = us @ c # v)"
    by (auto simp add: append_eq_append_conv2)
  then consider (a) "w = u @ us" "us @ 32 # ?J = c # v" | (b) "w @ us = u" "32 # ?J = us @ c # v"
    by blast
  then show ?case
  proof cases
    case a
    show ?thesis
    proof (cases us)
      case Nil
      then have "c = 32" "v = ?J" "u = w" using a by auto
      then show ?thesis using w J hx lw by simp
    next
      case (Cons d ds)
      then have "c \<in> set w" using a by auto
      then show ?thesis using w 3(4) by auto
    qed
  next
    case b
    show ?thesis
    proof (cases us)
      case Nil
      then have "c = 32" "v = ?J" "u = w" using b by auto
      then show ?thesis using w J hx lw by simp
    next
      case (Cons d ds)
      then have j: "?J = ds @ c # v" using b by simp
      from 3(1)[OF good j 3(4)] have
        "c = 32 \<and> ds \<noteq> [] \<and> v \<noteq> [] \<and> \<not> is_space (last ds) \<and> \<not> is_space (hd v)" .
      then show ?thesis using b Cons by auto
    qed
  qed
qed

lemma py_strip_join:
  assumes "\<forall>w\<in>set ws. w \<noteq> [] \<and> (\<forall>c\<in>set w. \<not> is_space c)"
  shows "py_strip (py_join [32] ws) = py_join [32] ws"
proof (cases ws)
  case Nil
  then show ?thesis by (simp add: py_strip_def)
next
  case (Cons x xs)
  let ?J = "py_join [32] ws"
  have e: "?J \<noteq> []" "hd ?J = hd (hd ws)" "last ?J = last (last ws)"
    using py_join_ends[of ws "[32]"] assms Cons by auto
  have h: "\<not> is_space (hd ?J)" using e(2) assms Cons by (metis hd_in_set list.sel(1) list.set_intros(1))
  have l: "\<not> is_space (last ?J)"
    using e(3) assms Cons by (metis last_in_set list.distinct(1))
  have 1: "dropWhile is_space ?J = ?J" using e(1) h by (cases ?J) auto
  have 2: "dropWhile is_space (rev ?J) = rev ?J"
    using e(1) l by (cases "rev ?J") (auto simp add: last_rev[symmetric] hd_rev)
  show ?thesis by (simp add: py_strip_def 1 2)
qed

lemma clean_text_join:
  "clean_text t = py_join [32] (py_split (filter (\<lambda>c. c \<noteq> 1757) t))"
  unfolding clean_text_def using py_split_words by (intro py_strip_join) blast

lemma set_py_join: "set (py_join sep ws) \<subseteq> set sep \<union> \<Union>(set ` set ws)"
  by (induction sep ws rule: py_join.induct) auto

lemma clean_text_no_marker: "1757 \<notin> set (clean_text t)"
proof
  assume "1757 \<in> set (clean_text t)"
  then have "1757 \<in> set [32::nat] \<union> \<Union>(set ` set (py_split (filter (\<lambda>c. c \<noteq> 1757) t)))"
    using set_py_join[of "[32]" "py_split (filter (\<lambda>c. c \<noteq> 1757) t)"]
    unfolding clean_text_join by blast
  then obtain w where "w \<in> set (py_split (filter (\<lambda>c. c \<noteq> 1757) t))" "1757 \<in> set w" by auto
  then have "1757 \<in> set (filter (\<lambda>c. c \<noteq> 1757) t)" using py_split_words by blast
  then show False by simp
qed

lemma clean_text_canon:
  "clean_text t = u @ c # v \<Longrightarrow> is_space c \<Longrightarrow>
     c = 32 \<and> u \<noteq> [] \<and> v \<noteq> [] \<and> \<not> is_space (last u) \<and> \<not> is_space (hd v)"
  unfolding clean_text_join using py_split_words by (intro py_join_canon) blast+

lemma score_same:
  "clean_text (get_or [] (l_text l_item)) = r_text \<Longrightarrow> score r_text l_item = 1"
  by (auto simp add: score_def similar_same)


lemma scan_local_same:
  assumes "clean_text (get_or [] (l_text l_item)) = r_text"
  shows "scan_local r_text [l_item] 0 None = Found l_item"
    and "l_item \<in> set local_all \<Longrightarrow> \<exists>l. scan_local r_text local_all 0 None = Found l"
proof -
  have s: "85 / 100 < score r_text l_item" using score_same[OF assms] by simp
  then show "scan_local r_text [l_item] 0 None = Found l_item"
    by (subst scan_local_Cons) simp
  assume "l_item \<in> set local_all"
  then have "find (\<lambda>l. 85 / 100 < score r_text l) local_all \<noteq> None"
    using s by (auto simp add: find_None_iff)
  then obtain l where "find (\<lambda>l. 85 / 100 < score r_text l) local_all = Some l" by auto
  from scan_local_found[OF this] show "\<exists>l. scan_local r_text local_all 0 None = Found l"
    by blast
qed

text \<open>
  Claim C7. Two texts differ only in whitespace runs or in occurrences of the marker exactly
  when \<open>clean_text\<close> maps them to the same string. The cleaned text has no marker, and every
  whitespace code point in it is a single space with a code point that is not whitespace on
  each side: the marker is stripped, the whitespace runs are collapsed to single spaces, the
  ends are trimmed. When the cleaned texts of a remote item and of a local item are equal, the
  ratio of their first 200 code points is 1, the scan of the local item alone stops at it as
  the match, the scan of any collection that holds the local item ends with a match, and with
  equal repeat counts the comparison with the local item reports nothing.
\<close>

theorem normalization_perfect_match:
  "(same_text s t \<longleftrightarrow> clean_text s = clean_text t) \<and>
   1757 \<notin> set (clean_text t) \<and>
   (clean_text t = u @ c # v \<and> is_space c \<longrightarrow>
      c = 32 \<and> u \<noteq> [] \<and> v \<noteq> [] \<and> \<not> is_space (last u) \<and> \<not> is_space (hd v)) \<and>
   (clean_text (get_or [] (ARABIC_TEXT r_item)) = clean_text (get_or [] (l_text l_item)) \<longrightarrow>
      similar (take 200 (clean_text (get_or [] (ARABIC_TEXT r_item))))
              (take 200 (clean_text (get_or [] (l_text l_item)))) = 1 \<and>
      scan_local (clean_text (get_or [] (ARABIC_TEXT r_item))) [l_item] 0 None = Found l_item \<and>
      (l_item \<in> set local_all \<longrightarrow>
         (\<exists>l. scan_local (clean_text (get_or [] (ARABIC_TEXT r_item))) local_all 0 None = Found l)) \<and>
      (r_rep_of r_item = Inr r_rep \<and> \<not> int_ne r_rep (l_rep_of l_item) \<longrightarrow>
         compare_item rname [l_item] r_item = Inr []))"
proof (intro conjI impI)
  show "same_text s t \<longleftrightarrow> clean_text s = clean_text t" by (rule same_text_iff)
next
  show "1757 \<notin> set (clean_text t)" by (rule clean_text_no_marker)
next
  assume "clean_text t = u @ c # v \<and> is_space c"
  then have "c = 32 \<and> u \<noteq> [] \<and> v \<noteq> [] \<and> \<not> is_space (last u) \<and> \<not> is_space (hd v)"
    using clean_text_canon by blast
  then show "c = 32" "u \<noteq> []" "v \<noteq> []" "\<not> is_space (last u)" "\<not> is_space (hd v)"
    by simp_all
next
  assume e: "clean_text (get_or [] (ARABIC_TEXT r_item)) = clean_text (get_or [] (l_text l_item))"
  show "similar (take 200 (clean_text (get_or [] (ARABIC_TEXT r_item))))
              (take 200 (clean_text (get_or [] (l_text l_item)))) = 1"
    by (simp add: e similar_same)
  show f: "scan_local (clean_text (get_or [] (ARABIC_TEXT r_item))) [l_item] 0 None = Found l_item"
    by (rule scan_local_same(1)[OF e[symmetric]])
  {
    assume "l_item \<in> set local_all"
    then show "\<exists>l. scan_local (clean_text (get_or [] (ARABIC_TEXT r_item))) local_all 0 None = Found l"
      by (rule scan_local_same(2)[OF e[symmetric]])
  }
  {
    assume "r_rep_of r_item = Inr r_rep \<and> \<not> int_ne r_rep (l_rep_of l_item)"
    then show "compare_item rname [l_item] r_item = Inr []"
      by (simp add: compare_item_def Let_def f del: scan_local.simps)
  }
qed

text \<open>The texts \<open>" a\<close>, marker, \<open>"  b "\<close> and \<open>"a b"\<close>, with the repeat count 3 on both sides.\<close>

theorem normalization_perfect_match_witness:
  "same_text [32, 97, 1757, 32, 32, 98, 32] [97, 32, 98] \<and>
   clean_text [32, 97, 1757, 32, 32, 98, 32] = clean_text [97, 32, 98] \<and>
   compare_item []
     [\<lparr>l_text = Some [97, 32, 98], l_repeat = Some (Some (JInt 3))\<rparr>]
     \<lparr>ARABIC_TEXT = Some [32, 97, 1757, 32, 32, 98, 32], TITLE = None,
       REPEAT = Some (JInt 3), REFERENCE = None\<rparr> = Inr []"
proof -
  have sp: "is_space 32" by (simp add: is_space_def)
  have 1: "same_text [32, 97, 1757, 32, 32, 98, 32] [97, 1757, 32, 32, 98, 32]"
    using same_lead[OF sp, of "[97, 1757, 32, 32, 98, 32]"] .
  have 2: "same_text [97, 1757, 32, 32, 98, 32] [97, 32, 32, 98, 32]"
    using same_marker[of "[97]" "[32, 32, 98, 32]"] by simp
  have 3: "same_text [97, 32, 98, 32] [97, 32, 32, 98, 32]"
    using same_run[OF sp sp, of "[97]" "[98, 32]"] by simp
  have 4: "same_text [97, 32, 98, 32] [97, 32, 98]"
    using same_trail[OF sp, of "[97, 32, 98]"] by simp
  have st: "same_text [32, 97, 1757, 32, 32, 98, 32] [97, 32, 98]"
    by (rule same_trans[OF 1 same_trans[OF 2 same_trans[OF same_sym[OF 3] 4]]])
  have eq: "clean_text [32, 97, 1757, 32, 32, 98, 32] = clean_text [97, 32, 98]"
    using normalization_perfect_match[where s = "[32, 97, 1757, 32, 32, 98, 32]"
        and t = "[97, 32, 98]"] st
    by blast
  have cmp: "compare_item []
     [\<lparr>l_text = Some [97, 32, 98], l_repeat = Some (Some (JInt 3))\<rparr>]
     \<lparr>ARABIC_TEXT = Some [32, 97, 1757, 32, 32, 98, 32], TITLE = None,
       REPEAT = Some (JInt 3), REFERENCE = None\<rparr> = Inr []"
    using normalization_perfect_match[where s = "[32, 97, 1757, 32, 32, 98, 32]"
        and t = "[97, 32, 98]"
        and r_item = "\<lparr>ARABIC_TEXT = Some [32, 97, 1757, 32, 32, 98, 32], TITLE = None,
           REPEAT = Some (JInt 3), REFERENCE = None\<rparr>"
        and l_item = "\<lparr>l_text = Some [97, 32, 98], l_repeat = Some (Some (JInt 3))\<rparr>"
        and local_all = "[]" and r_rep = 3 and rname = "[]"] eq
    by (simp add: get_or_def r_rep_of_def l_rep_of_def)
  show ?thesis using st eq cmp by simp
qed

section \<open>Properties of the repeat advisory\<close>





end
